theory Spec2Isabelle
  imports Main "HOL-Library.Char_ord" "HOL-Library.List_Lexorder"
begin

section \<open>Strings\<close>

text \<open>
  A Python \<open>str\<close> is modelled as a \<open>string\<close>: the list of the bytes of its UTF-8
  encoding. The single characters the program looks for (the slash, the backslash, the dot
  and the space) are ASCII, so replacing, splitting and prefix tests act on bytes as they
  act on code points, and the order of \<^theory_text>\<open>List_Lexorder\<close> on byte lists is the
  code point order that \<open>sorted\<close> uses.
\<close>

definition replace :: "string \<Rightarrow> char \<Rightarrow> string \<Rightarrow> string" where
  \<comment> \<open>\<open>s.replace(old, new)\<close> for a one-character \<open>old\<close>\<close>
  "replace s old new = concat (map (\<lambda>c. if c = old then new else [c]) s)"

text \<open>
  \<open>str.lower\<close>. On a string of ASCII characters it maps \<open>A\<close> to \<open>Z\<close> onto \<open>a\<close> to \<open>z\<close>
  and keeps every other character; that table is \<open>lower_char\<close>. On a string that holds
  any other code point it follows the case tables of Unicode (E-acute becomes e-acute,
  the Kelvin sign becomes \<open>k\<close>), which belong to the Python library and not to the
  program. They are the parameter \<open>ul\<close>: the function that \<open>str.lower\<close> is on such
  strings, from the UTF-8 bytes of a string to those of its lowercase form. Every
  definition that lowercases takes \<open>ul\<close>, and every theorem holds for every \<open>ul\<close>, so for
  the one that Python has.
\<close>

definition lower_char :: "char \<Rightarrow> char" where
  "lower_char c =
     (case map_of (zip ''ABCDEFGHIJKLMNOPQRSTUVWXYZ'' ''abcdefghijklmnopqrstuvwxyz'') c of
        Some l \<Rightarrow> l | None \<Rightarrow> c)"

definition isascii :: "string \<Rightarrow> bool" where
  \<comment> \<open>\<open>s.isascii()\<close>: every byte is below 128\<close>
  "isascii s = list_all (\<lambda>c. (of_char c :: nat) < 128) s"

definition lower :: "(string \<Rightarrow> string) \<Rightarrow> string \<Rightarrow> string" where
  "lower ul s = (if isascii s then map lower_char s else ul s)"

text \<open>
  An instance of the parameter, for evaluating examples: the lowercasing that knows the
  ASCII letters only. The names of the examples are ASCII, and there the result does not
  depend on the instance.
\<close>

definition ascii_lower :: "string \<Rightarrow> string" where
  "ascii_lower s = map lower_char s"

definition startswith :: "string \<Rightarrow> string \<Rightarrow> bool" where
  "startswith s pre = (take (length pre) s = pre)"

definition endswith :: "string \<Rightarrow> string \<Rightarrow> bool" where
  "endswith s suf = (length suf \<le> length s \<and> drop (length s - length suf) s = suf)"

definition rfind :: "string \<Rightarrow> char \<Rightarrow> int" where
  \<comment> \<open>\<open>s.rfind(c)\<close>: the index of the last \<open>c\<close>, or \<open>-1\<close>\<close>
  "rfind s c =
     (if c \<in> set s
      then int (length s) - 1 - int (length (takeWhile (\<lambda>x. x \<noteq> c) (rev s)))
      else - 1)"

section \<open>The path functions of \<open>os.path\<close> (POSIX)\<close>

definition os_sep :: char where
  "os_sep = CHR ''/''"

definition basename :: "string \<Rightarrow> string" where
  \<comment> \<open>\<open>i = p.rfind(sep) + 1; return p[i:]\<close>\<close>
  "basename p = drop (nat (rfind p os_sep + 1)) p"

definition join :: "string \<Rightarrow> string \<Rightarrow> string" where
  "join a b =
     (if startswith b [os_sep] then b
      else if a = [] \<or> endswith a [os_sep] then a @ b
      else a @ [os_sep] @ b)"

definition splitext :: "string \<Rightarrow> string \<times> string" where
  \<comment> \<open>the extension starts at the last dot, unless only dots lie between the last
      separator and it\<close>
  "splitext p =
     (let sepIndex = rfind p os_sep;
          dotIndex = rfind p (CHR ''.'')
      in if dotIndex > sepIndex \<and>
            list_ex (\<lambda>c. c \<noteq> CHR ''.'')
              (take (nat dotIndex - nat (sepIndex + 1)) (drop (nat (sepIndex + 1)) p))
         then (take (nat dotIndex) p, drop (nat dotIndex) p)
         else (p, []))"

section \<open>\<open>urllib.parse.quote\<close>\<close>

definition always_safe :: string where
  "always_safe = ''ABCDEFGHIJKLMNOPQRSTUVWXYZabcdefghijklmnopqrstuvwxyz0123456789_.-~''"

definition hexdigit :: "nat \<Rightarrow> char" where
  "hexdigit n = ''0123456789ABCDEF'' ! n"

definition quote_byte :: "string \<Rightarrow> char \<Rightarrow> string" where
  \<comment> \<open>\<open>chr(b) if b in safe else '%{:02X}'.format(b)\<close>\<close>
  "quote_byte safe c =
     (if c \<in> set always_safe \<or> c \<in> set safe then [c]
      else [CHR ''%'', hexdigit (of_char c div 16), hexdigit (of_char c mod 16)])"

definition quote :: "string \<Rightarrow> string \<Rightarrow> string" where
  "quote s safe = concat (map (quote_byte safe) s)"

text \<open>
  Percent-decoding, the inverse that the round-trip property of the specification
  speaks of: \<open>%\<close> followed by two hexadecimal digits is one byte; every other character,
  \<open>/\<close> among them, stands for itself.
\<close>

definition unhex :: "char \<Rightarrow> nat option" where
  "unhex c = map_of (zip ''0123456789ABCDEFabcdef'' ([0..<16] @ [10..<16])) c"

fun unquote :: "string \<Rightarrow> string" where
  "unquote [] = []"
| "unquote (c # cs) =
     (if c = CHR ''%'' then
        (case cs of
           h # l # rest \<Rightarrow>
             (case (unhex h, unhex l) of
                (Some a, Some b) \<Rightarrow> char_of (16 * a + b) # unquote rest
              | _ \<Rightarrow> c # unquote cs)
         | _ \<Rightarrow> c # unquote cs)
      else c # unquote cs)"

section \<open>The file system\<close>

text \<open>
  A snapshot of the file system below the scanned path. A directory holds its entries in
  the order in which the operating system enumerates them; \<open>Locked\<close> is a directory
  whose listing is refused, \<open>Other\<close> an entry that exists and is neither a directory nor
  a regular file. A path that does not exist is \<open>None\<close>.
\<close>

datatype fsnode = File | Other | Locked | Dir "(string \<times> fsnode) list"

datatype error = PermissionError | NotADirectoryError | FileNotFoundError | KeyError

definition exists :: "fsnode option \<Rightarrow> bool" where
  "exists fs = (fs \<noteq> None)"

definition isdir :: "fsnode option \<Rightarrow> bool" where
  "isdir fs = (case fs of Some (Dir es) \<Rightarrow> True | Some Locked \<Rightarrow> True | _ \<Rightarrow> False)"

definition isfile :: "fsnode option \<Rightarrow> bool" where
  "isfile fs = (fs = Some File)"

definition listdir :: "fsnode option \<Rightarrow> error + string list" where
  "listdir fs =
     (case fs of
        None \<Rightarrow> Inl FileNotFoundError
      | Some (Dir es) \<Rightarrow> Inr (map fst es)
      | Some Locked \<Rightarrow> Inl PermissionError
      | Some _ \<Rightarrow> Inl NotADirectoryError)"

definition entries :: "fsnode option \<Rightarrow> (string \<times> fsnode) list" where
  "entries fs = (case fs of Some (Dir es) \<Rightarrow> es | _ \<Rightarrow> [])"

section \<open>The gallery generator\<close>

text \<open>The nodes are Python dictionaries with string keys, in insertion order.\<close>

datatype json = JStr string | JList "json list" | JDict "(string \<times> json) list"

definition IMAGE_ROOT :: string where
  "IMAGE_ROOT = ''img''"

definition IMG_EXTENSIONS :: "string set" where
  "IMG_EXTENSIONS = {''.jpg'', ''.jpeg'', ''.png'', ''.gif'', ''.webp'', ''.bmp''}"

definition VID_EXTENSIONS :: "string set" where
  "VID_EXTENSIONS = {''.mp4'', ''.mov'', ''.webm'', ''.ogg'', ''.mkv''}"

definition generate_safe_id :: "(string \<Rightarrow> string) \<Rightarrow> string \<Rightarrow> string" where
  "generate_safe_id ul path =
     lower ul (replace (replace (replace path os_sep ''_'') (CHR '' '') ''_'') (CHR ''.'') '''')"

definition folder_node :: "(string \<Rightarrow> string) \<Rightarrow> string \<Rightarrow> json list \<Rightarrow> json" where
  \<comment> \<open>the dictionary \<open>node\<close> of \<open>scan_directory\<close>, with the children it has at the return\<close>
  "folder_node ul path children =
     (let folder_name = (if basename path = [] then ''Home'' else basename path)
      in JDict [(''id'', JStr (generate_safe_id ul path)),
                (''name'', JStr folder_name),
                (''type'', JStr ''folder''),
                (''children'', JList children)])"

definition media_node :: "string \<Rightarrow> string \<Rightarrow> string \<Rightarrow> json" where
  \<comment> \<open>the dictionary appended for a media file; \<open>ext\<close> is the lowercased extension\<close>
  "media_node item item_path ext =
     (let normalized_path = replace item_path (CHR 0x5C) ''/'';
          web_path = quote normalized_path ''/''
      in JDict [(''id'', JStr (replace (replace item (CHR ''.'') ''_'') (CHR '' '') ''_'')),
                (''name'', JStr item),
                (''type'', JStr (if ext \<in> VID_EXTENSIONS then ''video'' else ''image'')),
                (''src'', JStr web_path),
                (''thumbnail'', JStr web_path),
                (''date'', JStr '''')])"

definition warn_not_found :: "string \<Rightarrow> string" where
  "warn_not_found path = ''Warning: Path '' @ [CHR 0x27] @ path @ [CHR 0x27] @ '' not found.''"

definition warn_denied :: "string \<Rightarrow> string" where
  "warn_denied path =
     ''Warning: Permission denied for '' @ [CHR 0x27] @ path @ [CHR 0x27] @ ''.''"

definition append_child ::
  "json \<Rightarrow> string list \<Rightarrow> (error + json list) \<times> string list \<Rightarrow> (error + json list) \<times> string list"
where
  \<comment> \<open>one child appended and its lines printed, then the rest of the loop\<close>
  "append_child child w r =
     (case r of (Inl e, w') \<Rightarrow> (Inl e, w @ w') | (Inr cs, w') \<Rightarrow> (Inr (child # cs), w @ w'))"

lemma size_entry: "map_of es k = Some d \<Longrightarrow> size d < size (Dir es)"
proof -
  assume "map_of es k = Some d"
  then have "(k, d) \<in> set es" by (rule map_of_SomeD)
  then show ?thesis by (induction es) auto
qed

text \<open>
  \<open>scan_directory ul fs path\<close> is the call \<open>scan_directory(path)\<close> where \<open>fs\<close> is what the
  file system holds at \<open>path\<close>. It returns the node, or the exception that leaves the
  call, together with the lines it has printed, in order. \<open>scan_items ul es path items\<close> is
  the \<open>for\<close> loop over the sorted listing of a directory with entries \<open>es\<close>: an entry
  name resolves to the entry of that name.
\<close>

function scan_directory ::
    "(string \<Rightarrow> string) \<Rightarrow> fsnode option \<Rightarrow> string \<Rightarrow> (error + json) \<times> string list"
  and scan_items ::
    "(string \<Rightarrow> string) \<Rightarrow> (string \<times> fsnode) list \<Rightarrow> string \<Rightarrow> string list
       \<Rightarrow> (error + json list) \<times> string list"
where
  "scan_directory ul fs path =
     (if \<not> exists fs then (Inr (folder_node ul path []), [warn_not_found path])
      else
        (case listdir fs of
           Inl PermissionError \<Rightarrow> (Inr (folder_node ul path []), [warn_denied path])
         | Inl e \<Rightarrow> (Inl e, [])
         | Inr names \<Rightarrow>
             (case scan_items ul (entries fs) path (sort names) of
                (Inl e, w) \<Rightarrow> (Inl e, w)
              | (Inr children, w) \<Rightarrow> (Inr (folder_node ul path children), w))))"
| "scan_items ul es path [] = (Inr [], [])"
| "scan_items ul es path (item # items) =
     (if startswith item ''.'' then scan_items ul es path items
      else
        (let item_path = join path item in
         if isdir (map_of es item) then
           (case scan_directory ul (map_of es item) item_path of
              (Inl e, w) \<Rightarrow> (Inl e, w)
            | (Inr child, w) \<Rightarrow> append_child child w (scan_items ul es path items))
         else if isfile (map_of es item) then
           (let ext = lower ul (snd (splitext item)) in
            if ext \<in> IMG_EXTENSIONS \<or> ext \<in> VID_EXTENSIONS
            then append_child (media_node item item_path ext) [] (scan_items ul es path items)
            else scan_items ul es path items)
         else scan_items ul es path items))"
  by pat_completeness auto

termination
proof (relation "measures
    [\<lambda>x. case x of Inl (ul, fs, p) \<Rightarrow> (case fs of None \<Rightarrow> 0 | Some d \<Rightarrow> size d)
                     | Inr (ul, es, p, items) \<Rightarrow> size (Dir es),
     \<lambda>x. case x of Inl (ul, fs, p) \<Rightarrow> Suc (length (entries fs))
                     | Inr (ul, es, p, items) \<Rightarrow> length items]", goal_cases)
  case 1
  show ?case by simp
next
  case (2 ul fs path x2)
  then show ?case
    by (auto simp: exists_def listdir_def entries_def split: option.splits fsnode.splits)
next
  case (4 ul es path item items x)
  then show ?case
    by (auto simp: isdir_def dest: size_entry split: option.splits fsnode.splits)
qed simp_all

text \<open>\<open>field n k\<close> is \<open>n[k]\<close>, or \<open>None\<close> where Python raises \<open>KeyError\<close>.\<close>

fun field :: "json \<Rightarrow> string \<Rightarrow> json option" where
  "field (JDict kv) k = map_of kv k"
| "field _ k = None"

text \<open>
  \<open>generate ul fs\<close> is \<open>generate()\<close> up to the payload it hands to \<open>json.dumps\<close>, where \<open>fs\<close>
  is what the file system holds at \<open>IMAGE_ROOT\<close>: the payload (\<open>None\<close> when it returns
  before building one) or the exception that leaves it, and the lines printed so far.
  Writing the output file, and the lines printed after that, are not modelled.
\<close>

definition generate ::
  "(string \<Rightarrow> string) \<Rightarrow> fsnode option \<Rightarrow> (error + json option) \<times> string list" where
  "generate ul fs =
     (let out = [''--- GG Gallery Generator ---'',
                 ''Scanning directory: '' @ [CHR 0x27] @ IMAGE_ROOT @ [CHR 0x27] @ ''...'']
      in if \<not> exists fs
         then (Inr None,
               out @ [''CRITICAL ERROR: Directory '' @ [CHR 0x27] @ IMAGE_ROOT @ [CHR 0x27]
                        @ '' does not exist.''])
         else
           (case scan_directory ul fs IMAGE_ROOT of
              (Inl e, w) \<Rightarrow> (Inl e, out @ w)
            | (Inr root_node, w) \<Rightarrow>
                (case field root_node ''children'' of
                   None \<Rightarrow> (Inl KeyError, out @ w)
                 | Some children \<Rightarrow>
                     (Inr (Some (JDict [(''id'', JStr ''root''),
                                        (''name'', JStr ''Home''),
                                        (''type'', JStr ''folder''),
                                        (''children'', children)])),
                      out @ w))))"

section \<open>Reading the tree\<close>

text \<open>
  \<open>all_nodes t\<close> lists the dictionaries of a tree in pre-order: the node itself and the
  nodes of its children, at every depth.
\<close>

fun all_nodes :: "json \<Rightarrow> json list" where
  "all_nodes (JStr s) = []"
| "all_nodes (JList xs) = concat (map all_nodes xs)"
| "all_nodes (JDict kv) = JDict kv # concat (map (\<lambda>kv. all_nodes (snd kv)) kv)"

text \<open>
  The results of \<open>scan_directory\<close> and of one pass of its loop, as projections: the node
  returned, the lines printed, and what one entry contributes to each.
\<close>

definition is_media :: "(string \<Rightarrow> string) \<Rightarrow> string \<Rightarrow> bool" where
  "is_media ul item =
     (lower ul (snd (splitext item)) \<in> IMG_EXTENSIONS \<or> lower ul (snd (splitext item)) \<in> VID_EXTENSIONS)"

definition tree_of :: "(string \<Rightarrow> string) \<Rightarrow> fsnode option \<Rightarrow> string \<Rightarrow> json" where
  "tree_of ul fs path = (case fst (scan_directory ul fs path) of Inr t \<Rightarrow> t | Inl e \<Rightarrow> JList [])"

definition lines_of :: "(string \<Rightarrow> string) \<Rightarrow> fsnode option \<Rightarrow> string \<Rightarrow> string list" where
  "lines_of ul fs path = snd (scan_directory ul fs path)"

definition child_of ::
  "(string \<Rightarrow> string) \<Rightarrow> (string \<times> fsnode) list \<Rightarrow> string \<Rightarrow> string \<Rightarrow> json list" where
  "child_of ul es path item =
     (if startswith item ''.'' then []
      else if isdir (map_of es item) then [tree_of ul (map_of es item) (join path item)]
      else if isfile (map_of es item) \<and> is_media ul item
        then [media_node item (join path item) (lower ul (snd (splitext item)))]
      else [])"

definition item_lines ::
  "(string \<Rightarrow> string) \<Rightarrow> (string \<times> fsnode) list \<Rightarrow> string \<Rightarrow> string \<Rightarrow> string list" where
  "item_lines ul es path item =
     (if \<not> startswith item ''.'' \<and> isdir (map_of es item)
      then lines_of ul (map_of es item) (join path item) else [])"

text \<open>
  \<open>visits fs path fs' p\<close>: the scan that starts at \<open>path\<close>, where the file system holds
  \<open>fs\<close>, comes to the entry \<open>fs'\<close> under the path \<open>p\<close>. It descends from a listed
  directory to each of its entries whose name does not start with a dot.
\<close>

inductive visits :: "fsnode option \<Rightarrow> string \<Rightarrow> fsnode option \<Rightarrow> string \<Rightarrow> bool"
  for fs :: "fsnode option" and path :: string
where
  visits_root: "visits fs path fs path"
| visits_entry:
    "visits fs path (Some (Dir es)) p \<Longrightarrow> \<not> startswith item ''.'' \<Longrightarrow> map_of es item = Some d
     \<Longrightarrow> visits fs path (Some d) (join p item)"

text \<open>
  \<open>unlock d\<close> is the file system \<open>d\<close> with every directory whose listing is refused
  replaced by an empty, readable directory.
\<close>

fun unlock :: "fsnode \<Rightarrow> fsnode" where
  "unlock Locked = Dir []"
| "unlock (Dir es) = Dir (map (\<lambda>e. (fst e, unlock (snd e))) es)"
| "unlock File = File"
| "unlock Other = Other"

text \<open>
  The names a directory listing can hold: not empty, and without the separator.
  \<open>wf_names d\<close> says so of every entry of \<open>d\<close>, at every depth. \<open>name_of n\<close> reads the
  \<open>name\<close> field of a node.
\<close>

definition valid_name :: "string \<Rightarrow> bool" where
  "valid_name k = (k \<noteq> [] \<and> os_sep \<notin> set k)"

fun wf_names :: "fsnode \<Rightarrow> bool" where
  "wf_names (Dir es) = list_all (\<lambda>e. valid_name (fst e) \<and> wf_names (snd e)) es"
| "wf_names File = True"
| "wf_names Other = True"
| "wf_names Locked = True"

definition name_of :: "json \<Rightarrow> string" where
  "name_of n = (case field n ''name'' of Some (JStr s) \<Rightarrow> s | _ \<Rightarrow> [])"

text \<open>
  \<open>canon d\<close> is the file system \<open>d\<close> with the listing of every directory, at every depth,
  put in the sorted order of its names; \<open>distinct_names d\<close> says that no directory of \<open>d\<close>
  holds a name twice.
\<close>

fun canon :: "fsnode \<Rightarrow> fsnode" where
  "canon (Dir es) = Dir (sort_key fst (map (\<lambda>e. (fst e, canon (snd e))) es))"
| "canon File = File"
| "canon Other = Other"
| "canon Locked = Locked"

fun distinct_names :: "fsnode \<Rightarrow> bool" where
  "distinct_names (Dir es) = (distinct (map fst es) \<and> list_all (\<lambda>e. distinct_names (snd e)) es)"
| "distinct_names File = True"
| "distinct_names Other = True"
| "distinct_names Locked = True"

section \<open>An example\<close>

text \<open>
  The scenario of the specification, with an unreadable directory beside it, and the tree
  the specification expects for it.
\<close>

definition example_fs :: fsnode where
  "example_fs = Dir
     [(''notes.txt'', File),
      (''Vacation 2023'', Dir [(''beach.JPG'', File), (''.DS_Store'', File)]),
      (''Clips'', Dir [(''video.mp4'', File)]),
      (''private'', Locked)]"

definition beach_node :: json where
  "beach_node = JDict
     [(''id'', JStr ''beach_JPG''), (''name'', JStr ''beach.JPG''), (''type'', JStr ''image''),
      (''src'', JStr ''img/Vacation%202023/beach.JPG''),
      (''thumbnail'', JStr ''img/Vacation%202023/beach.JPG''), (''date'', JStr [])]"

definition video_node :: json where
  "video_node = JDict
     [(''id'', JStr ''video_mp4''), (''name'', JStr ''video.mp4''), (''type'', JStr ''video''),
      (''src'', JStr ''img/Clips/video.mp4''),
      (''thumbnail'', JStr ''img/Clips/video.mp4''), (''date'', JStr [])]"

definition vacation_node :: json where
  "vacation_node = JDict
     [(''id'', JStr ''img_vacation_2023''), (''name'', JStr ''Vacation 2023''),
      (''type'', JStr ''folder''), (''children'', JList [beach_node])]"

definition clips_node :: json where
  "clips_node = JDict
     [(''id'', JStr ''img_clips''), (''name'', JStr ''Clips''),
      (''type'', JStr ''folder''), (''children'', JList [video_node])]"

definition private_node :: json where
  "private_node = JDict
     [(''id'', JStr ''img_private''), (''name'', JStr ''private''),
      (''type'', JStr ''folder''), (''children'', JList [])]"

definition example_tree :: json where
  "example_tree = JDict
     [(''id'', JStr ''img''), (''name'', JStr ''img''), (''type'', JStr ''folder''),
      (''children'', JList [clips_node, vacation_node, private_node])]"

text \<open>The same entries as \<open>example_fs\<close>, enumerated in another order.\<close>

definition shuffled_fs :: fsnode where
  "shuffled_fs = Dir
     [(''private'', Locked),
      (''Clips'', Dir [(''video.mp4'', File)]),
      (''Vacation 2023'', Dir [(''.DS_Store'', File), (''beach.JPG'', File)]),
      (''notes.txt'', File)]"

section \<open>The scan as equations\<close>

lemma scan_total:
  "(\<not> exists fs \<or> isdir fs \<longrightarrow> (\<exists>t. fst (scan_directory ul fs path) = Inr t))"
  "scan_items ul es path items =
     (Inr (concat (map (child_of ul es path) items)), concat (map (item_lines ul es path) items))"
proof (induction ul fs path and ul es path items rule: scan_directory_scan_items.induct)
  case (1 ul fs path)
  show ?case
  proof (cases fs)
    case None
    then show ?thesis by (simp add: exists_def)
  next
    case (Some d)
    show ?thesis
    proof (cases d)
      case (Dir es)
      have "exists fs" "listdir fs = Inr (map fst es)" "entries fs = es"
        using Some Dir by (simp_all add: exists_def listdir_def entries_def)
      then show ?thesis using 1 by simp
    qed (use Some in \<open>simp_all add: exists_def isdir_def listdir_def\<close>)
  qed
next
  case (2 ul es path)
  show ?case by simp
next
  case (3 ul es path item items)
  show ?case
  proof (cases "startswith item ''.''")
    case True
    have "child_of ul es path item = []" "item_lines ul es path item = []"
      using True by (simp_all add: child_of_def item_lines_def)
    then show ?thesis using True 3(1) by simp
  next
    case h: False
    show ?thesis
    proof (cases "isdir (map_of es item)")
      case True
      from 3(2) [OF h refl True] True
      obtain t where t: "fst (scan_directory ul (map_of es item) (join path item)) = Inr t"
        by auto
      then obtain w where w: "scan_directory ul (map_of es item) (join path item) = (Inr t, w)"
        by (cases "scan_directory ul (map_of es item) (join path item)") auto
      have r: "scan_items ul es path items =
         (Inr (concat (map (child_of ul es path) items)), concat (map (item_lines ul es path) items))"
        using 3(3) [OF h refl True w [symmetric] refl] by simp
      have "child_of ul es path item = [t]" "item_lines ul es path item = w"
        using h True w by (simp_all add: child_of_def item_lines_def tree_of_def lines_of_def)
      then show ?thesis
        using h True w r by (simp add: append_child_def del: scan_directory.simps)
    next
      case d: False
      have l: "item_lines ul es path item = []"
        using d by (simp add: item_lines_def)
      show ?thesis
      proof (cases "isfile (map_of es item) \<and> is_media ul item")
        case True
        have m: "lower ul (snd (splitext item)) \<in> IMG_EXTENSIONS
                 \<or> lower ul (snd (splitext item)) \<in> VID_EXTENSIONS"
          using True by (simp add: is_media_def)
        have "child_of ul es path item =
                [media_node item (join path item) (lower ul (snd (splitext item)))]"
          using h d True by (simp add: child_of_def)
        then show ?thesis
          using h d True m l 3(4) [OF h refl d _ refl m]
          by (simp add: append_child_def Let_def del: scan_directory.simps)
      next
        case False
        have c: "child_of ul es path item = []"
          using h d False by (simp add: child_of_def)
        show ?thesis
        proof (cases "isfile (map_of es item)")
          case True
          then have m: "\<not> (lower ul (snd (splitext item)) \<in> IMG_EXTENSIONS
                 \<or> lower ul (snd (splitext item)) \<in> VID_EXTENSIONS)"
            using False by (simp add: is_media_def)
          show ?thesis
            using h d True m l c 3(5) [OF h refl d True refl m]
            by (simp add: Let_def del: scan_directory.simps)
        next
          case f: False
          show ?thesis
            using h d f l c 3(6) [OF h refl d f]
            by (simp add: Let_def del: scan_directory.simps)
        qed
      qed
    qed
  qed
qed

lemmas scan_items_eq = scan_total(2)

declare scan_directory.simps [simp del]

lemma scan_directory_None:
  "scan_directory ul None path = (Inr (folder_node ul path []), [warn_not_found path])"
  by (simp add: scan_directory.simps exists_def)

lemma scan_directory_Locked:
  "scan_directory ul (Some Locked) path = (Inr (folder_node ul path []), [warn_denied path])"
  by (simp add: scan_directory.simps exists_def listdir_def)

lemma scan_directory_File:
  "scan_directory ul (Some File) path = (Inl NotADirectoryError, [])"
  by (simp add: scan_directory.simps exists_def listdir_def)

lemma scan_directory_Other:
  "scan_directory ul (Some Other) path = (Inl NotADirectoryError, [])"
  by (simp add: scan_directory.simps exists_def listdir_def)

lemma scan_directory_Dir:
  "scan_directory ul (Some (Dir es)) path =
     (Inr (folder_node ul path (concat (map (child_of ul es path) (sort (map fst es))))),
      concat (map (item_lines ul es path) (sort (map fst es))))"
  by (simp add: scan_directory.simps exists_def listdir_def entries_def scan_items_eq)

lemmas scan_directory_eqs =
  scan_directory_None scan_directory_Locked scan_directory_File scan_directory_Other
  scan_directory_Dir

lemma tree_of_None: "tree_of ul None path = folder_node ul path []"
  by (simp add: tree_of_def scan_directory_None)

lemma tree_of_Locked: "tree_of ul (Some Locked) path = folder_node ul path []"
  by (simp add: tree_of_def scan_directory_Locked)

lemma tree_of_Dir:
  "tree_of ul (Some (Dir es)) path =
     folder_node ul path (concat (map (child_of ul es path) (sort (map fst es))))"
  by (simp add: tree_of_def scan_directory_Dir)

lemma lines_of_Dir:
  "lines_of ul (Some (Dir es)) path = concat (map (item_lines ul es path) (sort (map fst es)))"
  by (simp add: lines_of_def scan_directory_Dir)

lemma scan_directory_isdir:
  "\<not> exists fs \<or> isdir fs \<Longrightarrow> scan_directory ul fs path = (Inr (tree_of ul fs path), lines_of ul fs path)"
  using scan_total(1) [where ul = ul and fs = fs and path = path]
  by (cases "scan_directory ul fs path") (auto simp: tree_of_def lines_of_def)

lemma scan_directory_Inr:
  "fst (scan_directory ul fs path) = Inr t \<Longrightarrow> (\<not> exists fs \<or> isdir fs) \<and> t = tree_of ul fs path"
  by (cases fs; cases "the fs")
     (auto simp: scan_directory_eqs tree_of_def exists_def isdir_def)

section \<open>Lowercasing\<close>

lemma lower_ascii: "isascii s \<Longrightarrow> lower ul s = map lower_char s"
  by (simp add: lower_def)

lemma lower_unicode: "\<not> isascii s \<Longrightarrow> lower ul s = ul s"
  by (simp add: lower_def)

text \<open>
  Two names that are not ASCII. The identifier of a folder named E-acute (the bytes C3 89)
  is what the case tables make of its path, and a file with the extension \<open>.M\<close>, Kelvin
  sign (the bytes E2 84 AA), \<open>V\<close> is a media file when they make \<open>.mkv\<close> of it, as those
  of Python do.
\<close>

lemma safe_id_e_acute:
  "generate_safe_id ul (''img/'' @ [CHR 0xC3, CHR 0x89]) = ul (''img_'' @ [CHR 0xC3, CHR 0x89])"
  by code_simp

lemma is_media_kelvin:
  "ul (''.M'' @ [CHR 0xE2, CHR 0x84, CHR 0xAA] @ ''V'') = ''.mkv'' \<Longrightarrow>
   is_media ul (''clip.M'' @ [CHR 0xE2, CHR 0x84, CHR 0xAA] @ ''V'')"
proof -
  assume u: "ul (''.M'' @ [CHR 0xE2, CHR 0x84, CHR 0xAA] @ ''V'') = ''.mkv''"
  have e: "snd (splitext (''clip.M'' @ [CHR 0xE2, CHR 0x84, CHR 0xAA] @ ''V'')) =
             ''.M'' @ [CHR 0xE2, CHR 0x84, CHR 0xAA] @ ''V''"
    by code_simp
  have n: "\<not> isascii (''.M'' @ [CHR 0xE2, CHR 0x84, CHR 0xAA] @ ''V'')"
    by code_simp
  show ?thesis
    unfolding is_media_def e lower_unicode [OF n] u by (simp add: VID_EXTENSIONS_def)
qed

section \<open>The example, scanned\<close>

lemma scan_example:
  "scan_directory ul (Some example_fs) ''img'' = (Inr example_tree, [warn_denied ''img/private''])"
  by code_simp

lemma example_scanned: "fst (scan_directory ul (Some example_fs) ''img'') = Inr example_tree"
  by (simp add: scan_example)

lemma beach_in_example: "beach_node \<in> set (all_nodes example_tree)"
  by code_simp

lemma beach_is_image:
  "field beach_node ''type'' = Some (JStr ''image'') \<or> field beach_node ''type'' = Some (JStr ''video'')"
  by (simp add: beach_node_def)

lemma vacation_in_example: "vacation_node \<in> set (all_nodes example_tree)"
  by code_simp

lemma vacation_is_folder: "field vacation_node ''type'' = Some (JStr ''folder'')"
  by (simp add: vacation_node_def)

lemma example_wf: "wf_names example_fs"
  by code_simp

lemma example_children:
  "field example_tree ''children'' = Some (JList [clips_node, vacation_node, private_node])"
  by (simp add: example_tree_def)

lemma vacation_visited:
  "visits (Some example_fs) ''img''
     (Some (Dir [(''beach.JPG'', File), (''.DS_Store'', File)])) ''img/Vacation 2023''"
proof -
  have h: "\<not> startswith ''Vacation 2023'' ''.''" by code_simp
  have j: "join ''img'' ''Vacation 2023'' = ''img/Vacation 2023''" by code_simp
  have "visits (Some example_fs) ''img''
     (Some (Dir [(''beach.JPG'', File), (''.DS_Store'', File)])) (join ''img'' ''Vacation 2023'')"
    unfolding example_fs_def by (rule visits_entry [OF visits_root h]) simp
  then show ?thesis by (simp only: j)
qed

section \<open>Where the nodes of the tree come from\<close>

lemma visits_prepend:
  "visits (Some d) (join p item) x q \<Longrightarrow> \<not> startswith item ''.'' \<Longrightarrow> map_of es item = Some d
   \<Longrightarrow> visits (Some (Dir es)) p x q"
proof (induction rule: visits.induct)
  case visits_root
  then show ?case using visits.visits_entry [OF visits.visits_root] by blast
next
  case (visits_entry es' p' item' d')
  then show ?case using visits.visits_entry by blast
qed

lemma all_nodes_folder:
  "all_nodes (folder_node ul p cs) = folder_node ul p cs # concat (map all_nodes cs)"
  by (simp add: folder_node_def Let_def)

lemma all_nodes_media: "all_nodes (media_node a b c) = [media_node a b c]"
  by (simp add: media_node_def Let_def)

lemma child_of_cases:
  assumes "c \<in> set (child_of ul es p item)"
  obtains (dir) d where "\<not> startswith item ''.''" "map_of es item = Some d" "isdir (Some d)"
      "c = tree_of ul (Some d) (join p item)"
    | (media) "\<not> startswith item ''.''" "map_of es item = Some File" "is_media ul item"
      "c = media_node item (join p item) (lower ul (snd (splitext item)))"
  using assms
  by (auto simp: child_of_def isdir_def isfile_def split: if_splits option.splits)

lemma node_origin_dir:
  "isdir (Some d) \<Longrightarrow> n \<in> set (all_nodes (tree_of ul (Some d) p)) \<Longrightarrow>
     (\<exists>fs' p'. visits (Some d) p fs' p' \<and> isdir fs' \<and> n = tree_of ul fs' p') \<or>
     (\<exists>es p' item. visits (Some d) p (Some (Dir es)) p' \<and> \<not> startswith item ''.''
        \<and> map_of es item = Some File \<and> is_media ul item
        \<and> n = media_node item (join p' item) (lower ul (snd (splitext item))))"
proof (induction d arbitrary: p n)
  case (Dir es)
  show ?case
  proof (cases "n = tree_of ul (Some (Dir es)) p")
    case True
    then show ?thesis using visits_root Dir.prems(1) by blast
  next
    case False
    then obtain item c where item: "item \<in> set (sort (map fst es))"
      and c: "c \<in> set (child_of ul es p item)" and n: "n \<in> set (all_nodes c)"
      using Dir.prems(2) by (auto simp: tree_of_Dir all_nodes_folder)
    from c show ?thesis
    proof (cases rule: child_of_cases)
      case (dir d)
      have "(item, d) \<in> set es" using dir(2) by (rule map_of_SomeD)
      from Dir.IH [OF this _ dir(3)] n dir(4)
      have "(\<exists>fs' p'. visits (Some d) (join p item) fs' p' \<and> isdir fs' \<and> n = tree_of ul fs' p') \<or>
     (\<exists>es p' item'. visits (Some d) (join p item) (Some (Dir es)) p' \<and> \<not> startswith item' ''.''
        \<and> map_of es item' = Some File \<and> is_media ul item'
        \<and> n = media_node item' (join p' item') (lower ul (snd (splitext item'))))"
        by simp
      then show ?thesis
        using visits_prepend [OF _ dir(1) dir(2), of p] by blast
    next
      case media
      then have "n = c" using n by (simp add: all_nodes_media)
      then show ?thesis using media visits_root by blast
    qed
  qed
next
  case Locked
  then have "n = tree_of ul (Some Locked) p"
    by (simp add: tree_of_Locked all_nodes_folder)
  then show ?case using visits_root Locked.prems(1) by blast
qed (simp_all add: isdir_def)

lemma field_folder:
  "field (folder_node ul p cs) ''type'' = Some (JStr ''folder'')"
  "field (folder_node ul p cs) ''children'' = Some (JList cs)"
  "field (folder_node ul p cs) ''id'' = Some (JStr (generate_safe_id ul p))"
  "field (folder_node ul p cs) ''name'' = Some (JStr (if basename p = [] then ''Home'' else basename p))"
  "field (folder_node ul p cs) ''src'' = None"
  by (simp_all add: folder_node_def Let_def)

lemma field_media:
  "field (media_node item ip ext) ''type'' =
     Some (JStr (if ext \<in> VID_EXTENSIONS then ''video'' else ''image''))"
  "field (media_node item ip ext) ''src'' = Some (JStr (quote (replace ip (CHR 0x5C) ''/'') ''/''))"
  "field (media_node item ip ext) ''thumbnail'' =
     Some (JStr (quote (replace ip (CHR 0x5C) ''/'') ''/''))"
  "field (media_node item ip ext) ''date'' = Some (JStr [])"
  "field (media_node item ip ext) ''name'' = Some (JStr item)"
  "field (media_node item ip ext) ''id'' =
     Some (JStr (replace (replace item (CHR ''.'') ''_'') (CHR '' '') ''_''))"
  "field (media_node item ip ext) ''children'' = None"
  by (simp_all add: media_node_def Let_def)

lemma tree_of_is_folder:
  "\<not> exists fs \<or> isdir fs \<Longrightarrow> \<exists>cs. tree_of ul fs p = folder_node ul p cs"
  by (cases fs; cases "the fs")
     (auto simp: exists_def isdir_def tree_of_None tree_of_Locked tree_of_Dir)

lemma node_origin:
  assumes "fst (scan_directory ul fs path) = Inr t" and "n \<in> set (all_nodes t)"
  shows "(\<exists>fs' p'. visits fs path fs' p' \<and> (\<not> exists fs' \<or> isdir fs') \<and> n = tree_of ul fs' p') \<or>
     (\<exists>es p' item. visits fs path (Some (Dir es)) p' \<and> \<not> startswith item ''.''
        \<and> map_of es item = Some File \<and> is_media ul item
        \<and> n = media_node item (join p' item) (lower ul (snd (splitext item))))"
proof -
  from scan_directory_Inr [OF assms(1)]
  have s: "\<not> exists fs \<or> isdir fs" and t: "t = tree_of ul fs path" by simp_all
  show ?thesis
  proof (cases fs)
    case None
    then have "n = tree_of ul fs path"
      using assms(2) t by (simp add: tree_of_None all_nodes_folder)
    then show ?thesis using s visits_root by blast
  next
    case (Some d)
    then have "isdir (Some d)" using s by (simp add: exists_def)
    from node_origin_dir [OF this, where ul = ul and n = n and p = path] assms(2) t Some
    show ?thesis by blast
  qed
qed

text \<open>
  C7. Every node of the tree that \<open>scan_directory\<close> returns is a folder, an image or a
  video. A node of type folder has a \<open>children\<close> field holding a list; a node of type image
  or video has \<open>src\<close>, \<open>thumbnail\<close> and \<open>date\<close> fields, the thumbnail equal to the source and
  the date the empty string.
\<close>

theorem node_shape:
  "fst (scan_directory ul fs path) = Inr t \<Longrightarrow> n \<in> set (all_nodes t) \<Longrightarrow>
     (field n ''type'' = Some (JStr ''folder'') \<or> field n ''type'' = Some (JStr ''image'')
        \<or> field n ''type'' = Some (JStr ''video'')) \<and>
     (field n ''type'' = Some (JStr ''folder'') \<longrightarrow>
        (\<exists>cs. field n ''children'' = Some (JList cs))) \<and>
     (field n ''type'' = Some (JStr ''image'') \<or> field n ''type'' = Some (JStr ''video'') \<longrightarrow>
        (\<exists>src. field n ''src'' = Some (JStr src) \<and> field n ''thumbnail'' = Some (JStr src))
        \<and> field n ''date'' = Some (JStr []))"
proof -
  assume a: "fst (scan_directory ul fs path) = Inr t" "n \<in> set (all_nodes t)"
  from node_origin [OF a] consider
    (folder) fs' p' where "\<not> exists fs' \<or> isdir fs'" "n = tree_of ul fs' p'"
  | (media) p' item where "n = media_node item (join p' item) (lower ul (snd (splitext item)))"
    by blast
  then show ?thesis
  proof cases
    case folder
    then obtain cs where "n = folder_node ul p' cs"
      using tree_of_is_folder [where ul = ul and fs = fs' and p = p'] by auto
    then show ?thesis by (simp add: field_folder)
  next
    case media
    then show ?thesis by (simp add: field_media)
  qed
qed

theorem node_shape_witness:
  "fst (scan_directory ascii_lower (Some example_fs) ''img'') = Inr example_tree \<and>
   beach_node \<in> set (all_nodes example_tree) \<and>
   field beach_node ''type'' = Some (JStr ''image'') \<and>
   (\<exists>src. field beach_node ''src'' = Some (JStr src)
      \<and> field beach_node ''thumbnail'' = Some (JStr src)) \<and>
   field beach_node ''date'' = Some (JStr []) \<and>
   vacation_node \<in> set (all_nodes example_tree) \<and>
   field vacation_node ''type'' = Some (JStr ''folder'') \<and>
   (\<exists>cs. field vacation_node ''children'' = Some (JList cs))"
proof -
  have h3: "field beach_node ''type'' = Some (JStr ''image'')"
    by (simp add: beach_node_def)
  from node_shape [OF example_scanned beach_in_example] h3
  have m: "(\<exists>src. field beach_node ''src'' = Some (JStr src)
      \<and> field beach_node ''thumbnail'' = Some (JStr src)) \<and>
   field beach_node ''date'' = Some (JStr [])"
    by simp
  from node_shape [OF example_scanned vacation_in_example] vacation_is_folder
  have f: "\<exists>cs. field vacation_node ''children'' = Some (JList cs)"
    by simp
  from m f example_scanned beach_in_example h3 vacation_in_example vacation_is_folder
  show ?thesis by simp
qed

section \<open>Missing and unreadable directories\<close>

lemma map_of_unlock:
  "map_of (map (\<lambda>e. (fst e, unlock (snd e))) es) k = map_option unlock (map_of es k)"
  by (induction es) auto

lemma tree_unlock: "isdir (Some d) \<Longrightarrow> tree_of ul (Some (unlock d)) p = tree_of ul (Some d) p"
proof (induction d arbitrary: p)
  case (Dir es)
  have "child_of ul (map (\<lambda>e. (fst e, unlock (snd e))) es) p = child_of ul es p"
  proof
    fix item
    show "child_of ul (map (\<lambda>e. (fst e, unlock (snd e))) es) p item = child_of ul es p item"
  proof (cases "map_of es item")
    case None
    then show ?thesis by (simp add: child_of_def map_of_unlock isdir_def isfile_def)
  next
    case (Some d)
    then have m: "(item, d) \<in> set es" by (rule map_of_SomeD)
    show ?thesis
    proof (cases "isdir (Some d)")
      case True
      then have "isdir (Some (unlock d))" by (cases d) (simp_all add: isdir_def)
      then show ?thesis
        using Some True Dir.IH [OF m _ True]
        by (simp add: child_of_def map_of_unlock)
    next
      case False
      then show ?thesis
        using Some by (cases d) (simp_all add: child_of_def map_of_unlock isdir_def isfile_def)
    qed
  qed
  qed
  then show ?case by (simp add: tree_of_Dir comp_def)
qed (simp_all add: tree_of_Dir tree_of_Locked isdir_def)

text \<open>
  C8. A scan of a path that does not exist, and a scan of a directory whose listing is
  refused, return a folder node with no children and print one warning. No exception
  leaves the scan of a directory, whatever lies below it, and the tree it returns is the
  tree of the same file system with every unreadable directory empty: the entries beside
  an unreadable directory are processed as they would be without it.
\<close>

theorem missing_or_denied:
  "scan_directory ul None path = (Inr (folder_node ul path []), [warn_not_found path]) \<and>
   scan_directory ul (Some Locked) path = (Inr (folder_node ul path []), [warn_denied path]) \<and>
   field (folder_node ul path []) ''children'' = Some (JList []) \<and>
   (\<exists>t w. scan_directory ul (Some (Dir es)) path = (Inr t, w)) \<and>
   fst (scan_directory ul (Some (Dir es)) path) = fst (scan_directory ul (Some (unlock (Dir es))) path)"
proof -
  have "isdir (Some (Dir es))" by (simp add: isdir_def)
  from tree_unlock [OF this, where ul = ul and p = path] show ?thesis
    by (simp add: scan_directory_eqs field_folder tree_of_Dir comp_def)
qed

section \<open>Identifiers and source paths\<close>

lemma unhex_hexdigit_all: "list_all (\<lambda>n. unhex (hexdigit n) = Some n) [0..<16]"
  by code_simp

lemma unhex_hexdigit: "n < 16 \<Longrightarrow> unhex (hexdigit n) = Some n"
  using unhex_hexdigit_all by (simp add: list_all_iff)

lemma unquote_quote_byte:
  assumes "CHR ''%'' \<notin> set safe"
  shows "unquote (quote_byte safe c @ rest) = c # unquote rest"
proof (cases "c \<in> set always_safe \<or> c \<in> set safe")
  case True
  then have "c \<noteq> CHR ''%''" using assms by (auto simp: always_safe_def)
  then show ?thesis using True by (simp add: quote_byte_def)
next
  case False
  have "(of_char c :: nat) mod 256 < 256" by (rule mod_less_divisor) simp
  then have "(of_char c :: nat) < 256" by simp
  then have hi: "of_char c div 16 < (16::nat)" by arith
  have lo: "of_char c mod 16 < (16::nat)" by simp
  have "char_of (16 * (of_char c div 16) + of_char c mod 16 :: nat) = c" by simp
  then show ?thesis
    using False unhex_hexdigit [OF hi] unhex_hexdigit [OF lo]
    by (simp add: quote_byte_def del: mult_div_mod_eq div_mult_mod_eq)
qed

lemma unquote_quote: "CHR ''%'' \<notin> set safe \<Longrightarrow> unquote (quote s safe) = s"
  by (induction s) (simp_all add: quote_def unquote_quote_byte)

lemma replace_single: "replace s c [d] = map (\<lambda>x. if x = c then d else x) s"
  by (induction s) (simp_all add: replace_def)

lemma replace_empty: "replace s c [] = filter (\<lambda>x. x \<noteq> c) s"
  by (induction s) (simp_all add: replace_def)

lemma safe_id_chars:
  "replace (replace (replace p os_sep ''_'') (CHR '' '') ''_'') (CHR ''.'') [] =
     filter (\<lambda>c. c \<noteq> CHR ''.'')
       (map (\<lambda>c. if c = CHR ''/'' \<or> c = CHR '' '' then CHR ''_'' else c) p)"
  by (induction p) (simp_all add: replace_def os_sep_def)

lemma media_origin:
  assumes "fst (scan_directory ul fs path) = Inr t" and "n \<in> set (all_nodes t)"
    and "field n ''type'' = Some (JStr ''image'') \<or> field n ''type'' = Some (JStr ''video'')"
  shows "\<exists>es p item. visits fs path (Some (Dir es)) p \<and> \<not> startswith item ''.''
        \<and> map_of es item = Some File \<and> is_media ul item
        \<and> n = media_node item (join p item) (lower ul (snd (splitext item)))"
proof -
  have "\<not> (\<exists>fs' p'. (\<not> exists fs' \<or> isdir fs') \<and> n = tree_of ul fs' p')"
  proof
    assume "\<exists>fs' p'. (\<not> exists fs' \<or> isdir fs') \<and> n = tree_of ul fs' p'"
    then obtain fs' p' cs where "n = folder_node ul p' cs"
      using tree_of_is_folder by blast
    then show False using assms(3) by (simp add: field_folder)
  qed
  then show ?thesis using node_origin [OF assms(1,2)] by blast
qed

lemma folder_origin:
  assumes "fst (scan_directory ul fs path) = Inr t" and "n \<in> set (all_nodes t)"
    and "field n ''type'' = Some (JStr ''folder'')"
  shows "\<exists>fs' p. visits fs path fs' p \<and> (\<not> exists fs' \<or> isdir fs') \<and> n = tree_of ul fs' p"
proof -
  have "n \<noteq> media_node item ip ext" for item ip ext
    using assms(3) by (auto simp: field_media split: if_splits)
  then show ?thesis using node_origin [OF assms(1,2)] by blast
qed

text \<open>
  C1. For every image or video node of the tree, percent-decoding its \<open>src\<close> (with \<open>/\<close>
  standing for itself) gives back the path of the file, joined from the scanned path
  through the directories the scan descended, with every backslash replaced by a forward
  slash: quoting with \<open>/\<close> kept safe loses nothing, whatever characters the path holds.
\<close>

theorem source_path_round_trip:
  "fst (scan_directory ul fs path) = Inr t \<Longrightarrow> n \<in> set (all_nodes t) \<Longrightarrow>
   field n ''type'' = Some (JStr ''image'') \<or> field n ''type'' = Some (JStr ''video'') \<Longrightarrow>
   \<exists>es p item src. visits fs path (Some (Dir es)) p \<and> map_of es item = Some File \<and>
     field n ''name'' = Some (JStr item) \<and> field n ''src'' = Some (JStr src) \<and>
     unquote src = map (\<lambda>c. if c = CHR 0x5C then CHR ''/'' else c) (join p item)"
proof -
  assume a: "fst (scan_directory ul fs path) = Inr t" "n \<in> set (all_nodes t)"
    "field n ''type'' = Some (JStr ''image'') \<or> field n ''type'' = Some (JStr ''video'')"
  from media_origin [OF a] obtain es p item where v: "visits fs path (Some (Dir es)) p"
    and f: "map_of es item = Some File"
    and n: "n = media_node item (join p item) (lower ul (snd (splitext item)))"
    by blast
  have "unquote (quote (replace (join p item) (CHR 0x5C) ''/'') ''/'') =
          map (\<lambda>c. if c = CHR 0x5C then CHR ''/'' else c) (join p item)"
    by (simp add: unquote_quote replace_single)
  then show ?thesis using v f n by (auto simp: field_media)
qed

text \<open>
  C2. Every folder node of the tree is the node the scan returned for a directory it
  came to, and its \<open>id\<close> is the path of that directory, joined from the scanned path,
  with every \<open>/\<close> and every space replaced by an underscore, every dot removed, and the
  result lowercased by \<open>str.lower\<close>: by the ASCII table when the path is ASCII, by the case
  tables of Unicode otherwise.
\<close>

theorem folder_id:
  "fst (scan_directory ul fs path) = Inr t \<Longrightarrow> n \<in> set (all_nodes t) \<Longrightarrow>
   field n ''type'' = Some (JStr ''folder'') \<Longrightarrow>
   \<exists>fs' p. visits fs path fs' p \<and> fst (scan_directory ul fs' p) = Inr n \<and>
     field n ''id'' = Some (JStr (lower ul (filter (\<lambda>c. c \<noteq> CHR ''.'')
       (map (\<lambda>c. if c = CHR ''/'' \<or> c = CHR '' '' then CHR ''_'' else c) p))))"
proof -
  assume a: "fst (scan_directory ul fs path) = Inr t" "n \<in> set (all_nodes t)"
    "field n ''type'' = Some (JStr ''folder'')"
  from folder_origin [OF a] obtain fs' p where v: "visits fs path fs' p"
    and d: "\<not> exists fs' \<or> isdir fs'" and n: "n = tree_of ul fs' p"
    by blast
  from tree_of_is_folder [OF d, where ul = ul and p = p] obtain cs where c: "tree_of ul fs' p = folder_node ul p cs" ..
  have s: "fst (scan_directory ul fs' p) = Inr n"
    using scan_directory_isdir [OF d, where ul = ul and path = p] n by simp
  have "generate_safe_id ul p = lower ul (filter (\<lambda>c. c \<noteq> CHR ''.'')
       (map (\<lambda>c. if c = CHR ''/'' \<or> c = CHR '' '' then CHR ''_'' else c) p))"
    by (simp add: generate_safe_id_def safe_id_chars)
  then show ?thesis using v s n c by (auto simp: field_folder)
qed

text \<open>
  C3. The \<open>id\<close> of every image or video node is the name of the file alone, as the
  \<open>name\<close> field holds it, with every dot and every space replaced by an underscore and every
  other character, the case of letters included, unchanged.
\<close>

theorem media_id:
  "fst (scan_directory ul fs path) = Inr t \<Longrightarrow> n \<in> set (all_nodes t) \<Longrightarrow>
   field n ''type'' = Some (JStr ''image'') \<or> field n ''type'' = Some (JStr ''video'') \<Longrightarrow>
   \<exists>es p item. visits fs path (Some (Dir es)) p \<and> map_of es item = Some File \<and>
     field n ''name'' = Some (JStr item) \<and>
     field n ''id'' = Some (JStr (map (\<lambda>c. if c = CHR ''.'' \<or> c = CHR '' '' then CHR ''_'' else c) item))"
proof -
  assume a: "fst (scan_directory ul fs path) = Inr t" "n \<in> set (all_nodes t)"
    "field n ''type'' = Some (JStr ''image'') \<or> field n ''type'' = Some (JStr ''video'')"
  from media_origin [OF a] obtain es p item where v: "visits fs path (Some (Dir es)) p"
    and f: "map_of es item = Some File"
    and n: "n = media_node item (join p item) (lower ul (snd (splitext item)))"
    by blast
  have "replace (replace item (CHR ''.'') ''_'') (CHR '' '') ''_'' =
          map (\<lambda>c. if c = CHR ''.'' \<or> c = CHR '' '' then CHR ''_'' else c) item"
    by (induction item) (simp_all add: replace_def)
  then show ?thesis using v f n by (auto simp: field_media)
qed

theorem source_path_round_trip_witness:
  "fst (scan_directory ascii_lower (Some example_fs) ''img'') = Inr example_tree \<and>
   beach_node \<in> set (all_nodes example_tree) \<and>
   (field beach_node ''type'' = Some (JStr ''image'')
      \<or> field beach_node ''type'' = Some (JStr ''video'')) \<and>
   unquote ''img/Vacation%202023/beach.JPG'' = ''img/Vacation 2023/beach.JPG'' \<and>
   (\<exists>es p item src. visits (Some example_fs) ''img'' (Some (Dir es)) p \<and>
      map_of es item = Some File \<and>
      field beach_node ''name'' = Some (JStr item) \<and> field beach_node ''src'' = Some (JStr src) \<and>
      unquote src = map (\<lambda>c. if c = CHR 0x5C then CHR ''/'' else c) (join p item))"
proof -
  have u: "unquote ''img/Vacation%202023/beach.JPG'' = ''img/Vacation 2023/beach.JPG''"
    by code_simp
  show ?thesis
    using source_path_round_trip [OF example_scanned beach_in_example beach_is_image]
      example_scanned beach_in_example beach_is_image u
    by blast
qed

theorem folder_id_witness:
  "fst (scan_directory ascii_lower (Some example_fs) ''img'') = Inr example_tree \<and>
   vacation_node \<in> set (all_nodes example_tree) \<and>
   field vacation_node ''type'' = Some (JStr ''folder'') \<and>
   (\<exists>fs' p. visits (Some example_fs) ''img'' fs' p \<and>
      fst (scan_directory ascii_lower fs' p) = Inr vacation_node \<and>
      field vacation_node ''id'' = Some (JStr (lower ascii_lower (filter (\<lambda>c. c \<noteq> CHR ''.'')
        (map (\<lambda>c. if c = CHR ''/'' \<or> c = CHR '' '' then CHR ''_'' else c) p)))))"
  using folder_id [OF example_scanned vacation_in_example vacation_is_folder]
    example_scanned vacation_in_example vacation_is_folder
  by blast

theorem media_id_witness:
  "fst (scan_directory ascii_lower (Some example_fs) ''img'') = Inr example_tree \<and>
   beach_node \<in> set (all_nodes example_tree) \<and>
   (field beach_node ''type'' = Some (JStr ''image'')
      \<or> field beach_node ''type'' = Some (JStr ''video'')) \<and>
   field beach_node ''id'' = Some (JStr ''beach_JPG'') \<and>
   (\<exists>es p item. visits (Some example_fs) ''img'' (Some (Dir es)) p \<and>
      map_of es item = Some File \<and> field beach_node ''name'' = Some (JStr item) \<and>
      field beach_node ''id'' =
        Some (JStr (map (\<lambda>c. if c = CHR ''.'' \<or> c = CHR '' '' then CHR ''_'' else c) item)))"
proof -
  have i: "field beach_node ''id'' = Some (JStr ''beach_JPG'')"
    by (simp add: beach_node_def)
  show ?thesis
    using media_id [OF example_scanned beach_in_example beach_is_image]
      example_scanned beach_in_example beach_is_image i
    by blast
qed

section \<open>Hidden entries and the order of children\<close>

lemma rfind_absent: "c \<notin> set s \<Longrightarrow> rfind s c = - 1"
  by (simp add: rfind_def)

lemma rfind_last: "c \<notin> set s \<Longrightarrow> rfind (p @ c # s) c = int (length p)"
proof -
  assume a: "c \<notin> set s"
  then have "takeWhile (\<lambda>x. x \<noteq> c) (rev s @ c # rev p) = rev s"
    by (simp add: takeWhile_append)
  then show ?thesis by (simp add: rfind_def)
qed

lemma basename_plain: "os_sep \<notin> set s \<Longrightarrow> basename s = s"
  by (simp add: basename_def rfind_absent)

lemma basename_after_sep: "os_sep \<notin> set s \<Longrightarrow> basename (p @ os_sep # s) = s"
  by (simp add: basename_def rfind_last nat_add_distrib)

lemma basename_join: "valid_name item \<Longrightarrow> basename (join p item) = item"
proof -
  assume v: "valid_name item"
  then have n: "os_sep \<notin> set item" and e: "item \<noteq> []" by (simp_all add: valid_name_def)
  have s: "\<not> startswith item [os_sep]"
    using n e by (cases item) (auto simp: startswith_def)
  show ?thesis
  proof (cases "p = []")
    case True
    then show ?thesis using s n by (simp add: join_def basename_plain)
  next
    case False
    show ?thesis
    proof (cases "endswith p [os_sep]")
      case True
      then have "drop (length p - 1) p = [os_sep]" and "1 \<le> length p"
        by (simp_all add: endswith_def)
      then obtain q where q: "p = q @ [os_sep]"
        by (metis append_take_drop_id)
      have "join (q @ [os_sep]) item = q @ os_sep # item"
        using s by (simp add: join_def endswith_def)
      then show ?thesis using n q by (simp add: basename_after_sep)
    next
      case e: False
      then have "join p item = p @ os_sep # item"
        using s False by (simp add: join_def)
      then show ?thesis using n by (simp add: basename_after_sep)
    qed
  qed
qed


lemma wf_entry: "wf_names (Dir es) \<Longrightarrow> map_of es item = Some d \<Longrightarrow> valid_name item \<and> wf_names d"
proof -
  assume w: "wf_names (Dir es)" and m: "map_of es item = Some d"
  from m have "(item, d) \<in> set es" by (rule map_of_SomeD)
  then show ?thesis using w by (auto simp: list_all_iff)
qed

lemma wf_listed: "wf_names (Dir es) \<Longrightarrow> item \<in> set (map fst es) \<Longrightarrow> valid_name item"
  by (auto simp: list_all_iff)

lemma visits_wf:
  "visits fs p fs' p' \<Longrightarrow> fs = Some d \<Longrightarrow> wf_names d \<Longrightarrow> \<exists>d'. fs' = Some d' \<and> wf_names d'"
proof (induction rule: visits.induct)
  case visits_root
  then show ?case by simp
next
  case (visits_entry es p item d')
  then have "wf_names (Dir es)" by auto
  then show ?case using wf_entry visits_entry.hyps(3) by blast
qed

lemma visits_name:
  "visits fs p fs' p' \<Longrightarrow> fs = Some d \<Longrightarrow> wf_names d \<Longrightarrow>
   basename p \<noteq> [] \<and> \<not> startswith (basename p) ''.'' \<Longrightarrow>
   basename p' \<noteq> [] \<and> \<not> startswith (basename p') ''.''"
proof (induction rule: visits.induct)
  case visits_root
  then show ?case by simp
next
  case (visits_entry es q item d')
  from visits_wf [OF visits_entry.hyps(1) visits_entry.prems(1,2)]
  have "wf_names (Dir es)" by simp
  then have "valid_name item" using wf_entry visits_entry.hyps(3) by blast
  then show ?case
    using visits_entry.hyps(2) by (simp add: basename_join valid_name_def)
qed

lemma tree_name:
  "\<not> exists fs \<or> isdir fs \<Longrightarrow>
   field (tree_of ul fs p) ''name'' = Some (JStr (if basename p = [] then ''Home'' else basename p))"
  using tree_of_is_folder [where ul = ul and fs = fs and p = p] by (auto simp: field_folder)

lemma tree_children_Dir:
  "field (tree_of ul (Some (Dir es)) p) ''children'' =
     Some (JList (concat (map (child_of ul es p) (sort (map fst es)))))"
  by (simp add: tree_of_Dir field_folder)

text \<open>
  C5. In a file system whose entry names are file names (not empty, without \<open>/\<close>), no
  node below the root of the tree, at any depth, folder or media, has a name that begins
  with a dot. The root node stands for the scanned path itself, which is an argument and
  not an entry of a listing.
\<close>

theorem hidden_never_appear:
  "wf_names d \<Longrightarrow> fst (scan_directory ul (Some d) path) = Inr t \<Longrightarrow>
   field t ''children'' = Some (JList cs) \<Longrightarrow> c \<in> set cs \<Longrightarrow> n \<in> set (all_nodes c) \<Longrightarrow>
   \<exists>name. field n ''name'' = Some (JStr name) \<and> \<not> startswith name ''.''"
proof -
  assume w: "wf_names d" and s: "fst (scan_directory ul (Some d) path) = Inr t"
    and f: "field t ''children'' = Some (JList cs)" and c: "c \<in> set cs"
    and n: "n \<in> set (all_nodes c)"
  from scan_directory_Inr [OF s]
  have dir: "isdir (Some d)" and t: "t = tree_of ul (Some d) path" by (simp_all add: exists_def)
  show ?thesis
  proof (cases d)
    case (Dir es)
    then have "cs = concat (map (child_of ul es path) (sort (map fst es)))"
      using f t by (simp add: tree_children_Dir)
    then obtain item where "c \<in> set (child_of ul es path item)" using c by auto
    then show ?thesis
    proof (cases rule: child_of_cases)
      case (dir d')
      have v: "valid_name item" and w': "wf_names d'"
        using wf_entry [of es item d'] w Dir dir(2) by simp_all
      have b: "basename (join path item) \<noteq> [] \<and> \<not> startswith (basename (join path item)) ''.''"
        using v dir(1) by (simp add: basename_join valid_name_def)
      from node_origin_dir [OF dir(3), where ul = ul and n = n and p = "join path item"] n dir(4)
      consider (folder) fs' p' where "visits (Some d') (join path item) fs' p'" "isdir fs'"
          "n = tree_of ul fs' p'"
        | (media) item' ip ext where "\<not> startswith item' ''.''" "n = media_node item' ip ext"
        by blast
      then show ?thesis
      proof cases
        case folder
        from visits_name [OF folder(1) refl w' b] tree_name [where ul = ul and fs = fs' and p = p'] folder(2,3)
        show ?thesis by simp
      next
        case media
        then show ?thesis by (simp add: field_media)
      qed
    next
      case media
      then have "n = c" using n by (simp add: all_nodes_media)
      then show ?thesis using media by (simp add: field_media)
    qed
  next
    case Locked
    then show ?thesis using f t c by (simp add: tree_of_Locked field_folder)
  qed (use dir in \<open>simp_all add: isdir_def\<close>)
qed

lemma child_of_name:
  "valid_name item \<Longrightarrow>
   child_of ul es p item = [] \<or> (\<exists>c. child_of ul es p item = [c] \<and> name_of c = item)"
  by (auto simp: child_of_def name_of_def field_media tree_name basename_join valid_name_def)

lemma children_names:
  "list_all valid_name items \<Longrightarrow>
   map name_of (concat (map (child_of ul es p) items)) = filter (\<lambda>i. child_of ul es p i \<noteq> []) items"
proof (induction items)
  case Nil
  then show ?case by simp
next
  case (Cons item items)
  then have "valid_name item" by simp
  from child_of_name [OF this, where ul = ul and es = es and p = p] show ?case using Cons by auto
qed

text \<open>
  C6. In such a file system, every folder node of the tree is the node returned for a
  directory the scan came to, and the names of its children, folders and media files
  together, are a subsequence of the sorted listing of that directory: they stand in
  the lexicographic order of their bytes, in which an uppercase letter comes before every
  lowercase one.
\<close>

theorem children_sorted:
  "wf_names d \<Longrightarrow> fst (scan_directory ul (Some d) path) = Inr t \<Longrightarrow> n \<in> set (all_nodes t) \<Longrightarrow>
   field n ''type'' = Some (JStr ''folder'') \<Longrightarrow>
   \<exists>fs' p cs P. visits (Some d) path fs' p \<and> fst (scan_directory ul fs' p) = Inr n \<and>
     field n ''children'' = Some (JList cs) \<and>
     map name_of cs = filter P (sort (map fst (entries fs'))) \<and>
     sorted (map name_of cs)"
proof -
  assume w: "wf_names d" and a: "fst (scan_directory ul (Some d) path) = Inr t"
    "n \<in> set (all_nodes t)" "field n ''type'' = Some (JStr ''folder'')"
  from folder_origin [OF a] obtain fs' p where v: "visits (Some d) path fs' p"
    and d: "\<not> exists fs' \<or> isdir fs'" and n: "n = tree_of ul fs' p"
    by blast
  have s: "fst (scan_directory ul fs' p) = Inr n"
    using scan_directory_isdir [OF d, where ul = ul and path = p] n by simp
  from visits_wf [OF v refl w] obtain d' where d': "fs' = Some d'" and w': "wf_names d'"
    by blast
  have "\<exists>cs P. field n ''children'' = Some (JList cs) \<and>
     map name_of cs = filter P (sort (map fst (entries fs'))) \<and> sorted (map name_of cs)"
  proof (cases d')
    case (Dir es)
    let ?cs = "concat (map (child_of ul es p) (sort (map fst es)))"
    let ?P = "\<lambda>i. child_of ul es p i \<noteq> []"
    have "list_all valid_name (sort (map fst es))"
      using w' Dir wf_listed [of es] by (auto simp: list_all_iff simp del: wf_names.simps)
    then have m: "map name_of ?cs = filter ?P (sort (map fst es))"
      by (rule children_names)
    have "sorted (filter ?P (sort (map fst es)))"
      using sorted_filter [of "\<lambda>x. x" "sort (map fst es)" ?P] by simp
    then show ?thesis
      using m n d' Dir by (auto simp: tree_children_Dir entries_def)
  next
    case Locked
    then show ?thesis
      using n d' by (simp add: tree_of_Locked field_folder entries_def)
  qed (use d d' in \<open>simp_all add: isdir_def exists_def\<close>)
  then show ?thesis using v s by blast
qed

theorem hidden_never_appear_witness:
  "wf_names example_fs \<and>
   fst (scan_directory ascii_lower (Some example_fs) ''img'') = Inr example_tree \<and>
   field example_tree ''children'' = Some (JList [clips_node, vacation_node, private_node]) \<and>
   vacation_node \<in> set [clips_node, vacation_node, private_node] \<and>
   beach_node \<in> set (all_nodes vacation_node) \<and>
   (\<exists>name. field beach_node ''name'' = Some (JStr name) \<and> \<not> startswith name ''.'')"
proof -
  have c: "vacation_node \<in> set [clips_node, vacation_node, private_node]" by simp
  have n: "beach_node \<in> set (all_nodes vacation_node)" by code_simp
  show ?thesis
    using hidden_never_appear [OF example_wf example_scanned example_children c n]
      example_wf example_scanned example_children c n
    by blast
qed

theorem children_sorted_witness:
  "wf_names example_fs \<and>
   fst (scan_directory ascii_lower (Some example_fs) ''img'') = Inr example_tree \<and>
   example_tree \<in> set (all_nodes example_tree) \<and>
   field example_tree ''type'' = Some (JStr ''folder'') \<and>
   map name_of [clips_node, vacation_node, private_node] =
     [''Clips'', ''Vacation 2023'', ''private''] \<and>
   (\<exists>fs' p cs P. visits (Some example_fs) ''img'' fs' p \<and>
      fst (scan_directory ascii_lower fs' p) = Inr example_tree \<and>
      field example_tree ''children'' = Some (JList cs) \<and>
      map name_of cs = filter P (sort (map fst (entries fs'))) \<and>
      sorted (map name_of cs))"
proof -
  have n: "example_tree \<in> set (all_nodes example_tree)" by (simp add: example_tree_def)
  have f: "field example_tree ''type'' = Some (JStr ''folder'')" by (simp add: example_tree_def)
  have m: "map name_of [clips_node, vacation_node, private_node] =
     [''Clips'', ''Vacation 2023'', ''private'']"
    by (simp add: name_of_def clips_node_def vacation_node_def private_node_def)
  show ?thesis
    using children_sorted [OF example_wf example_scanned n f] example_wf example_scanned n f m
    by blast
qed

section \<open>Which files become media nodes\<close>

lemma all_nodes_trans:
  "b \<in> set (all_nodes c) \<Longrightarrow> a \<in> set (all_nodes b) \<Longrightarrow> a \<in> set (all_nodes c)"
proof (induction c)
  case (JStr s)
  then show ?case by simp
next
  case (JList xs)
  then show ?case by auto
next
  case (JDict kv)
  show ?case
  proof (cases "b = JDict kv")
    case True
    then show ?thesis using JDict.prems(2) by simp
  next
    case False
    then obtain e where e: "e \<in> set kv" "b \<in> set (all_nodes (snd e))"
      using JDict.prems(1) by auto
    have "snd e \<in> Basic_BNFs.snds e" by (cases e) simp
    from JDict.IH [OF e(1) this e(2) JDict.prems(2)] e(1) show ?thesis by auto
  qed
qed

lemma child_in_tree:
  assumes "c \<in> set (child_of ul es p item)" and "item \<in> set (map fst es)"
  shows "c \<in> set (all_nodes (tree_of ul (Some (Dir es)) p))"
proof -
  have "c \<in> set (all_nodes c)"
    using assms(1)
  proof (cases rule: child_of_cases)
    case (dir d)
    then show ?thesis
      using tree_of_is_folder [where ul = ul and fs = "Some d" and p = "join p item"] by (auto simp: all_nodes_folder)
  next
    case media
    then show ?thesis by (simp add: all_nodes_media)
  qed
  then show ?thesis
    using assms by (auto simp: tree_of_Dir all_nodes_folder)
qed

lemma listed: "map_of es item = Some d \<Longrightarrow> item \<in> set (map fst es)"
  by (metis map_of_SomeD fst_conv image_eqI set_map)

lemma visited_subtree:
  "visits fs path fs' p' \<Longrightarrow> fst (scan_directory ul fs path) = Inr t \<Longrightarrow> isdir fs' \<Longrightarrow>
   tree_of ul fs' p' \<in> set (all_nodes t)"
proof (induction rule: visits.induct)
  case visits_root
  from scan_directory_Inr [OF visits_root(1)] tree_of_is_folder [where ul = ul and fs = fs and p = path]
  show ?case by (auto simp: all_nodes_folder)
next
  case (visits_entry es p item d)
  have "isdir (Some (Dir es))" by (simp add: isdir_def)
  from visits_entry.IH [OF visits_entry.prems(1) this]
  have up: "tree_of ul (Some (Dir es)) p \<in> set (all_nodes t)" .
  have "tree_of ul (Some d) (join p item) \<in> set (child_of ul es p item)"
    using visits_entry.hyps(2,3) visits_entry.prems(2) by (simp add: child_of_def)
  from child_in_tree [OF this listed [OF visits_entry.hyps(3)]]
  show ?case using up all_nodes_trans by blast
qed

lemma media_included:
  assumes "visits fs path (Some (Dir es)) p" and "map_of es item = Some File"
    and "\<not> startswith item ''.''" and "is_media ul item"
    and "fst (scan_directory ul fs path) = Inr t"
  shows "media_node item (join p item) (lower ul (snd (splitext item))) \<in> set (all_nodes t)"
proof -
  have "isdir (Some (Dir es))" by (simp add: isdir_def)
  from visited_subtree [OF assms(1,5) this]
  have up: "tree_of ul (Some (Dir es)) p \<in> set (all_nodes t)" .
  have "media_node item (join p item) (lower ul (snd (splitext item))) \<in> set (child_of ul es p item)"
    using assms(2,3,4) by (simp add: child_of_def isdir_def isfile_def)
  from child_in_tree [OF this listed [OF assms(2)]]
  show ?thesis using up all_nodes_trans by blast
qed

lemma lines_origin_dir:
  "isdir (Some d) \<Longrightarrow> l \<in> set (lines_of ul (Some d) p) \<Longrightarrow>
   \<exists>q. visits (Some d) p (Some Locked) q \<and> l = warn_denied q"
proof (induction d arbitrary: p)
  case (Dir es)
  then obtain item where l: "l \<in> set (item_lines ul es p item)"
    by (auto simp: lines_of_Dir)
  then have h: "\<not> startswith item ''.''" and d: "isdir (map_of es item)"
    and l': "l \<in> set (lines_of ul (map_of es item) (join p item))"
    by (auto simp: item_lines_def split: if_splits)
  from d obtain d' where m: "map_of es item = Some d'"
    by (auto simp: isdir_def split: option.splits)
  then have "(item, d') \<in> set es" by (rule map_of_SomeD)
  from Dir.IH [OF this _ _ l' [unfolded m]] d m
  obtain q where "visits (Some d') (join p item) (Some Locked) q" "l = warn_denied q"
    by auto
  then show ?case using visits_prepend [OF _ h m] by blast
next
  case Locked
  then have "l = warn_denied p" by (simp add: lines_of_def scan_directory_Locked)
  then show ?case using visits_root by blast
qed (simp_all add: isdir_def)

lemma lines_included:
  "visits fs path fs' q \<Longrightarrow> isdir fs' \<Longrightarrow> set (lines_of ul fs' q) \<subseteq> set (lines_of ul fs path)"
proof (induction rule: visits.induct)
  case visits_root
  then show ?case by simp
next
  case (visits_entry es p item d)
  have "isdir (Some (Dir es))" by (simp add: isdir_def)
  from visits_entry.IH [OF this]
  have up: "set (lines_of ul (Some (Dir es)) p) \<subseteq> set (lines_of ul fs path)" .
  have "item_lines ul es p item = lines_of ul (Some d) (join p item)"
    using visits_entry.hyps(2,3) visits_entry.prems by (simp add: item_lines_def)
  then have "set (lines_of ul (Some d) (join p item)) \<subseteq> set (lines_of ul (Some (Dir es)) p)"
    using listed [OF visits_entry.hyps(3)] by (auto simp: lines_of_Dir)
  then show ?case using up by blast
qed

lemma extensions_disjoint: "IMG_EXTENSIONS \<inter> VID_EXTENSIONS = {}"
  by (simp add: IMG_EXTENSIONS_def VID_EXTENSIONS_def)


lemma map_of_without:
  "k \<noteq> item \<Longrightarrow> map_of (filter (\<lambda>e. fst e \<noteq> item) es) k = map_of es k"
  by (induction es) auto

lemma scan_without_entry:
  assumes c: "child_of ul es p item = []" and l: "item_lines ul es p item = []"
  shows "scan_directory ul (Some (Dir (filter (\<lambda>e. fst e \<noteq> item) es))) p =
           scan_directory ul (Some (Dir es)) p"
proof -
  let ?es' = "filter (\<lambda>e. fst e \<noteq> item) es"
  have "map fst ?es' = filter (\<lambda>k. k \<noteq> item) (map fst es)"
    by (simp add: filter_map comp_def)
  then have names: "sort (map fst ?es') = filter (\<lambda>k. k \<noteq> item) (sort (map fst es))"
    by (simp add: filter_sort)
  have ck: "child_of ul ?es' p k = child_of ul es p k" if "k \<noteq> item" for k
    using that by (simp add: child_of_def map_of_without)
  have lk: "item_lines ul ?es' p k = item_lines ul es p k" if "k \<noteq> item" for k
    using that by (simp add: item_lines_def map_of_without)
  have cc: "concat (map (child_of ul ?es' p) (filter (\<lambda>k. k \<noteq> item) items)) =
              concat (map (child_of ul es p) items)" for items
    by (induction items) (simp_all add: ck c)
  have ll: "concat (map (item_lines ul ?es' p) (filter (\<lambda>k. k \<noteq> item) items)) =
              concat (map (item_lines ul es p) items)" for items
    by (induction items) (simp_all add: lk l)
  show ?thesis by (simp only: scan_directory_Dir names cc ll)
qed

lemma visits_None: "visits fs path fs' p' \<Longrightarrow> fs = None \<Longrightarrow> fs' = None"
  by (induction rule: visits.induct) simp_all

text \<open>
  C4, as amended. Take a regular file whose name does not begin with a dot, in a directory
  the scan lists. The tree has an image node of its name exactly when its lowercased
  extension is in the image set, and a video node of its name exactly when it is in the
  video set. The node of its directory is a node of the tree, and with any other extension
  the file produces nothing: the scan of the directory returns the same node and prints
  the same lines as the scan of the directory without the file. Every line the scan
  prints is the warning of an unreadable directory, so a file never causes one.
  \<open>PHOTO.JPG\<close> and \<open>photo.jpg\<close> have the same lowercased extension. The lowercasing is
  \<open>str.lower\<close>, with the case tables of Unicode for names that are not ASCII.
\<close>

theorem media_iff_extension:
  "visits fs path (Some (Dir es)) p \<Longrightarrow> map_of es item = Some File \<Longrightarrow>
   \<not> startswith item ''.'' \<Longrightarrow> fst (scan_directory ul fs path) = Inr t \<Longrightarrow>
   ((\<exists>n \<in> set (all_nodes t). field n ''name'' = Some (JStr item)
        \<and> field n ''type'' = Some (JStr ''image''))
      \<longleftrightarrow> lower ul (snd (splitext item)) \<in> IMG_EXTENSIONS) \<and>
   ((\<exists>n \<in> set (all_nodes t). field n ''name'' = Some (JStr item)
        \<and> field n ''type'' = Some (JStr ''video''))
      \<longleftrightarrow> lower ul (snd (splitext item)) \<in> VID_EXTENSIONS) \<and>
   (\<exists>n \<in> set (all_nodes t). fst (scan_directory ul (Some (Dir es)) p) = Inr n) \<and>
   (lower ul (snd (splitext item)) \<notin> IMG_EXTENSIONS \<and>
    lower ul (snd (splitext item)) \<notin> VID_EXTENSIONS \<longrightarrow>
      scan_directory ul (Some (Dir (filter (\<lambda>e. fst e \<noteq> item) es))) p =
        scan_directory ul (Some (Dir es)) p) \<and>
   (\<forall>l \<in> set (snd (scan_directory ul fs path)).
      \<exists>q. visits fs path (Some Locked) q \<and> l = warn_denied q) \<and>
   lower ul (snd (splitext ''PHOTO.JPG'')) = lower ul (snd (splitext ''photo.jpg''))"
proof -
  assume v: "visits fs path (Some (Dir es)) p" and f: "map_of es item = Some File"
    and h: "\<not> startswith item ''.''" and s: "fst (scan_directory ul fs path) = Inr t"
  let ?ext = "lower ul (snd (splitext item))"
  let ?m = "media_node item (join p item) ?ext"
  have named: "?ext \<in> IMG_EXTENSIONS \<or> ?ext \<in> VID_EXTENSIONS"
       "field n ''type'' = Some (JStr (if ?ext \<in> VID_EXTENSIONS then ''video'' else ''image''))"
    if n: "n \<in> set (all_nodes t)" "field n ''name'' = Some (JStr item)"
      "field n ''type'' = Some (JStr ''image'') \<or> field n ''type'' = Some (JStr ''video'')"
    for n
  proof -
    from media_origin [OF s n(1,3)] obtain p' item' where i: "is_media ul item'"
      and m: "n = media_node item' (join p' item') (lower ul (snd (splitext item')))"
      by blast
    then have "item' = item" using n(2) by (simp add: field_media)
    then show "?ext \<in> IMG_EXTENSIONS \<or> ?ext \<in> VID_EXTENSIONS"
      and "field n ''type'' = Some (JStr (if ?ext \<in> VID_EXTENSIONS then ''video'' else ''image''))"
      using i m by (simp_all add: is_media_def field_media)
  qed
  have incl: "?m \<in> set (all_nodes t)" if "?ext \<in> IMG_EXTENSIONS \<or> ?ext \<in> VID_EXTENSIONS"
    using media_included [OF v f h _ s] that by (simp add: is_media_def)
  have img: "(\<exists>n \<in> set (all_nodes t). field n ''name'' = Some (JStr item)
        \<and> field n ''type'' = Some (JStr ''image'')) \<longleftrightarrow> ?ext \<in> IMG_EXTENSIONS"
  proof
    assume "\<exists>n \<in> set (all_nodes t). field n ''name'' = Some (JStr item)
        \<and> field n ''type'' = Some (JStr ''image'')"
    then obtain n where n: "n \<in> set (all_nodes t)" "field n ''name'' = Some (JStr item)"
      "field n ''type'' = Some (JStr ''image'')" by blast
    from named [OF n(1,2)] n(3) show "?ext \<in> IMG_EXTENSIONS"
      by (auto split: if_splits)
  next
    assume e: "?ext \<in> IMG_EXTENSIONS"
    then have "?ext \<notin> VID_EXTENSIONS" using extensions_disjoint by blast
    then have "field ?m ''name'' = Some (JStr item) \<and> field ?m ''type'' = Some (JStr ''image'')"
      by (simp add: field_media)
    then show "\<exists>n \<in> set (all_nodes t). field n ''name'' = Some (JStr item)
        \<and> field n ''type'' = Some (JStr ''image'')"
      using incl e by blast
  qed
  have vid: "(\<exists>n \<in> set (all_nodes t). field n ''name'' = Some (JStr item)
        \<and> field n ''type'' = Some (JStr ''video'')) \<longleftrightarrow> ?ext \<in> VID_EXTENSIONS"
  proof
    assume "\<exists>n \<in> set (all_nodes t). field n ''name'' = Some (JStr item)
        \<and> field n ''type'' = Some (JStr ''video'')"
    then obtain n where n: "n \<in> set (all_nodes t)" "field n ''name'' = Some (JStr item)"
      "field n ''type'' = Some (JStr ''video'')" by blast
    from named [OF n(1,2)] n(3) show "?ext \<in> VID_EXTENSIONS"
      by (auto split: if_splits)
  next
    assume e: "?ext \<in> VID_EXTENSIONS"
    then have "field ?m ''name'' = Some (JStr item) \<and> field ?m ''type'' = Some (JStr ''video'')"
      by (simp add: field_media)
    then show "\<exists>n \<in> set (all_nodes t). field n ''name'' = Some (JStr item)
        \<and> field n ''type'' = Some (JStr ''video'')"
      using incl e by blast
  qed
  have "fs \<noteq> None" using visits_None [OF v] by auto
  then obtain d where d: "fs = Some d" by auto
  then have dir: "isdir (Some d)" using scan_directory_Inr [OF s] by (simp add: exists_def)
  have lines: "\<forall>l \<in> set (snd (scan_directory ul fs path)).
      \<exists>q. visits fs path (Some Locked) q \<and> l = warn_denied q"
    using lines_origin_dir [OF dir, where ul = ul and p = path] d by (simp add: lines_of_def)
  have same: "lower ul (snd (splitext ''PHOTO.JPG'')) = lower ul (snd (splitext ''photo.jpg''))"
    by code_simp
  have dirnode: "\<exists>n \<in> set (all_nodes t). fst (scan_directory ul (Some (Dir es)) p) = Inr n"
  proof -
    have "isdir (Some (Dir es))" by (simp add: isdir_def)
    from visited_subtree [OF v s this]
    have "tree_of ul (Some (Dir es)) p \<in> set (all_nodes t)" .
    moreover have "fst (scan_directory ul (Some (Dir es)) p) = Inr (tree_of ul (Some (Dir es)) p)"
      by (simp add: scan_directory_Dir tree_of_Dir)
    ultimately show ?thesis by blast
  qed
  have other: "?ext \<notin> IMG_EXTENSIONS \<and> ?ext \<notin> VID_EXTENSIONS \<longrightarrow>
      scan_directory ul (Some (Dir (filter (\<lambda>e. fst e \<noteq> item) es))) p =
        scan_directory ul (Some (Dir es)) p"
  proof
    assume o: "?ext \<notin> IMG_EXTENSIONS \<and> ?ext \<notin> VID_EXTENSIONS"
    have c: "child_of ul es p item = []"
      using f o by (simp add: child_of_def isdir_def is_media_def)
    have l: "item_lines ul es p item = []"
      using f by (simp add: item_lines_def isdir_def)
    from scan_without_entry [OF c l]
    show "scan_directory ul (Some (Dir (filter (\<lambda>e. fst e \<noteq> item) es))) p =
        scan_directory ul (Some (Dir es)) p" .
  qed
  from img vid dirnode other lines same show ?thesis by blast
qed

lemma example_root_visited:
  "visits (Some example_fs) ''img'' (Some (Dir (entries (Some example_fs)))) ''img''"
proof -
  have "Some (Dir (entries (Some example_fs))) = Some example_fs"
    by (simp add: example_fs_def entries_def)
  then show ?thesis by (simp only: visits_root)
qed

theorem media_iff_extension_witness:
  "visits (Some example_fs) ''img''
     (Some (Dir [(''beach.JPG'', File), (''.DS_Store'', File)])) ''img/Vacation 2023'' \<and>
   map_of [(''beach.JPG'', File), (''.DS_Store'', File)] ''beach.JPG'' = Some File \<and>
   \<not> startswith ''beach.JPG'' ''.'' \<and>
   fst (scan_directory ascii_lower (Some example_fs) ''img'') = Inr example_tree \<and>
   lower ascii_lower (snd (splitext ''beach.JPG'')) \<in> IMG_EXTENSIONS \<and>
   (\<exists>n \<in> set (all_nodes example_tree). field n ''name'' = Some (JStr ''beach.JPG'')
      \<and> field n ''type'' = Some (JStr ''image'')) \<and>
   visits (Some example_fs) ''img'' (Some (Dir (entries (Some example_fs)))) ''img'' \<and>
   map_of (entries (Some example_fs)) ''notes.txt'' = Some File \<and>
   \<not> startswith ''notes.txt'' ''.'' \<and>
   lower ascii_lower (snd (splitext ''notes.txt'')) \<notin> IMG_EXTENSIONS \<and>
   lower ascii_lower (snd (splitext ''notes.txt'')) \<notin> VID_EXTENSIONS \<and>
   \<not> (\<exists>n \<in> set (all_nodes example_tree). field n ''name'' = Some (JStr ''notes.txt'')
      \<and> field n ''type'' = Some (JStr ''image'')) \<and>
   scan_directory ascii_lower
     (Some (Dir (filter (\<lambda>e. fst e \<noteq> ''notes.txt'') (entries (Some example_fs))))) ''img'' =
     scan_directory ascii_lower (Some (Dir (entries (Some example_fs)))) ''img''"
proof -
  have m: "map_of [(''beach.JPG'', File), (''.DS_Store'', File)] ''beach.JPG'' = Some File"
    by simp
  have h: "\<not> startswith ''beach.JPG'' ''.''" by code_simp
  have e: "lower ascii_lower (snd (splitext ''beach.JPG'')) \<in> IMG_EXTENSIONS" by code_simp
  from media_iff_extension [OF vacation_visited m h example_scanned] e
  have i: "\<exists>n \<in> set (all_nodes example_tree). field n ''name'' = Some (JStr ''beach.JPG'')
      \<and> field n ''type'' = Some (JStr ''image'')"
    by blast
  have m0: "map_of (entries (Some example_fs)) ''notes.txt'' = Some File" by code_simp
  have h0: "\<not> startswith ''notes.txt'' ''.''" by code_simp
  have e0: "lower ascii_lower (snd (splitext ''notes.txt'')) \<notin> IMG_EXTENSIONS"
    "lower ascii_lower (snd (splitext ''notes.txt'')) \<notin> VID_EXTENSIONS"
    by code_simp+
  from media_iff_extension [OF example_root_visited m0 h0 example_scanned] e0
  have n0: "\<not> (\<exists>n \<in> set (all_nodes example_tree). field n ''name'' = Some (JStr ''notes.txt'')
      \<and> field n ''type'' = Some (JStr ''image''))"
    and s0: "scan_directory ascii_lower
     (Some (Dir (filter (\<lambda>e. fst e \<noteq> ''notes.txt'') (entries (Some example_fs))))) ''img'' =
     scan_directory ascii_lower (Some (Dir (entries (Some example_fs)))) ''img''"
    by blast+
  from vacation_visited m h example_scanned e i example_root_visited m0 h0 e0 n0 s0
  show ?thesis by blast
qed

text \<open>
  C4 as stated fails for a hidden file: \<open>._beach.jpg\<close> is a regular file with an image
  extension, and the scan of its directory returns no child and prints nothing, whatever
  the case tables are.
\<close>

lemma hidden_image_skipped:
  "isfile (map_of [(''._beach.jpg'', File)] ''._beach.jpg'') \<and>
   lower ul (snd (splitext ''._beach.jpg'')) \<in> IMG_EXTENSIONS \<and>
   scan_directory ul (Some (Dir [(''._beach.jpg'', File)])) ''img'' =
     (Inr (folder_node ul ''img'' []), [])"
  by code_simp

theorem media_iff_extension_counterexample:
  "isfile (map_of [(''._beach.jpg'', File)] ''._beach.jpg'') \<and>
   lower ascii_lower (snd (splitext ''._beach.jpg'')) \<in> IMG_EXTENSIONS \<and>
   scan_directory ascii_lower (Some (Dir [(''._beach.jpg'', File)])) ''img'' =
     (Inr (folder_node ascii_lower ''img'' []), [])"
  by (rule hidden_image_skipped)

section \<open>Warnings\<close>

lemma unlock_not_Locked: "unlock d \<noteq> Locked"
  by (cases d) simp_all

lemma visits_unlock:
  "visits fs p fs' q \<Longrightarrow> fs = Some (unlock d) \<Longrightarrow> \<exists>d'. fs' = Some (unlock d')"
proof (induction rule: visits.induct)
  case visits_root
  then show ?case by blast
next
  case (visits_entry es p item x)
  then obtain d' where d': "Dir es = unlock d'" by auto
  show ?case
  proof (cases d')
    case (Dir es0)
    then have "map_option unlock (map_of es0 item) = Some x"
      using d' visits_entry.hyps(3) by (simp add: map_of_unlock)
    then show ?thesis by auto
  next
    case Locked
    then show ?thesis using d' visits_entry.hyps(3) by simp
  qed (use d' in simp_all)
qed

lemma lines_unlock: "isdir (Some d) \<Longrightarrow> lines_of ul (Some (unlock d)) p = []"
proof -
  assume "isdir (Some d)"
  then have dir: "isdir (Some (unlock d))" by (cases d) (simp_all add: isdir_def)
  have "l \<notin> set (lines_of ul (Some (unlock d)) p)" for l
  proof
    assume "l \<in> set (lines_of ul (Some (unlock d)) p)"
    from lines_origin_dir [OF dir this]
    obtain q where "visits (Some (unlock d)) p (Some Locked) q" by blast
    from visits_unlock [OF this refl] show False using unlock_not_Locked by (metis option.inject)
  qed
  then show ?thesis by (cases "lines_of ul (Some (unlock d)) p") auto
qed

text \<open>
  C9, as amended. The warnings are printed, not returned. A missing path and an
  unreadable directory print one warning each; a listed directory prints, in the sorted
  order of its listing, what the scans of its subdirectories that are not hidden print,
  and nothing else, so that the lines printed are the warnings of the unreadable
  directories the scan comes to. \<open>generate\<close> prints them after its two opening lines.
  The node returned holds none of this: it is the node of the file system in which the
  unreadable directories are empty ones, whose scan prints nothing.
\<close>

theorem warnings_printed:
  "snd (scan_directory ul None path) = [warn_not_found path] \<and>
   snd (scan_directory ul (Some Locked) path) = [warn_denied path] \<and>
   snd (scan_directory ul (Some (Dir es)) path) =
     concat (map (\<lambda>item. if \<not> startswith item ''.'' \<and> isdir (map_of es item)
                          then snd (scan_directory ul (map_of es item) (join path item)) else [])
                 (sort (map fst es))) \<and>
   set (snd (scan_directory ul (Some (Dir es)) path)) =
     {warn_denied q | q. visits (Some (Dir es)) path (Some Locked) q} \<and>
   snd (generate ul (Some (Dir es))) =
     [''--- GG Gallery Generator ---'', ''Scanning directory: '' @ [CHR 0x27] @ IMAGE_ROOT @ [CHR 0x27] @ ''...'']
       @ snd (scan_directory ul (Some (Dir es)) IMAGE_ROOT) \<and>
   fst (scan_directory ul (Some (Dir es)) path) =
     fst (scan_directory ul (Some (unlock (Dir es))) path) \<and>
   snd (scan_directory ul (Some (unlock (Dir es))) path) = []"
proof -
  have dir: "isdir (Some (Dir es))" by (simp add: isdir_def)
  have u: "fst (scan_directory ul (Some (Dir es)) path) =
     fst (scan_directory ul (Some (unlock (Dir es))) path)"
    using tree_unlock [OF dir, where ul = ul and p = path] by (simp add: scan_directory_Dir tree_of_Dir comp_def)
  have n: "snd (scan_directory ul (Some (unlock (Dir es))) path) = []"
    using lines_unlock [OF dir, where ul = ul and p = path] by (simp only: lines_of_def)
  have "item_lines ul es path = (\<lambda>item. if \<not> startswith item ''.'' \<and> isdir (map_of es item)
                          then snd (scan_directory ul (map_of es item) (join path item)) else [])"
    by (rule ext) (simp add: item_lines_def lines_of_def)
  then have c: "snd (scan_directory ul (Some (Dir es)) path) =
     concat (map (\<lambda>item. if \<not> startswith item ''.'' \<and> isdir (map_of es item)
                          then snd (scan_directory ul (map_of es item) (join path item)) else [])
                 (sort (map fst es)))"
    by (simp add: scan_directory_Dir)
  have "l \<in> set (lines_of ul (Some (Dir es)) path) \<longleftrightarrow>
          (\<exists>q. l = warn_denied q \<and> visits (Some (Dir es)) path (Some Locked) q)" for l
  proof
    assume "l \<in> set (lines_of ul (Some (Dir es)) path)"
    from lines_origin_dir [OF dir this]
    show "\<exists>q. l = warn_denied q \<and> visits (Some (Dir es)) path (Some Locked) q" by blast
  next
    assume "\<exists>q. l = warn_denied q \<and> visits (Some (Dir es)) path (Some Locked) q"
    then obtain q where q: "l = warn_denied q" "visits (Some (Dir es)) path (Some Locked) q"
      by blast
    have "isdir (Some Locked)" by (simp add: isdir_def)
    from lines_included [OF q(2) this] q(1)
    show "l \<in> set (lines_of ul (Some (Dir es)) path)"
      by (simp add: lines_of_def scan_directory_Locked)
  qed
  then have s: "set (snd (scan_directory ul (Some (Dir es)) path)) =
     {warn_denied q | q. visits (Some (Dir es)) path (Some Locked) q}"
    by (auto simp: lines_of_def simp del: scan_directory_Dir)
  have g: "snd (generate ul (Some (Dir es))) =
     [''--- GG Gallery Generator ---'', ''Scanning directory: '' @ [CHR 0x27] @ IMAGE_ROOT @ [CHR 0x27] @ ''...'']
       @ snd (scan_directory ul (Some (Dir es)) IMAGE_ROOT)"
    by (simp add: generate_def exists_def scan_directory_Dir field_folder)
  from c s g u n show ?thesis
    by (simp only: scan_directory_None scan_directory_Locked snd_conv simp_thms)
qed

text \<open>
  C9 as stated fails: the node that \<open>scan_directory\<close> returns, and the payload that
  \<open>generate\<close> builds from it, are the same for a directory that cannot be read as for
  an empty one, while only the first prints a warning. The value returned carries no
  warning. This is so whatever the case tables are.
\<close>

lemma denied_like_empty:
  "fst (scan_directory ul (Some (Dir [(''a'', Locked)])) ''img'') =
     fst (scan_directory ul (Some (Dir [(''a'', Dir [])])) ''img'') \<and>
   snd (scan_directory ul (Some (Dir [(''a'', Locked)])) ''img'') = [warn_denied ''img/a''] \<and>
   snd (scan_directory ul (Some (Dir [(''a'', Dir [])])) ''img'') = [] \<and>
   fst (generate ul (Some (Dir [(''a'', Locked)]))) = fst (generate ul (Some (Dir [(''a'', Dir [])])))"
  by code_simp

theorem warnings_returned_counterexample:
  "fst (scan_directory ascii_lower (Some (Dir [(''a'', Locked)])) ''img'') =
     fst (scan_directory ascii_lower (Some (Dir [(''a'', Dir [])])) ''img'') \<and>
   snd (scan_directory ascii_lower (Some (Dir [(''a'', Locked)])) ''img'') = [warn_denied ''img/a''] \<and>
   snd (scan_directory ascii_lower (Some (Dir [(''a'', Dir [])])) ''img'') = [] \<and>
   fst (generate ascii_lower (Some (Dir [(''a'', Locked)]))) =
     fst (generate ascii_lower (Some (Dir [(''a'', Dir [])])))"
  by (rule denied_like_empty)

section \<open>The order of enumeration\<close>

lemma map_of_canon:
  "map_of (map (\<lambda>e. (fst e, canon (snd e))) es) k = map_option canon (map_of es k)"
  by (induction es) auto

lemma canon_entries:
  assumes "distinct (map fst es)"
  defines "ys \<equiv> sort_key fst (map (\<lambda>e. (fst e, canon (snd e))) es)"
  shows "sort (map fst ys) = sort (map fst es)"
    and "map_of ys k = map_option canon (map_of es k)"
proof -
  let ?xs = "map (\<lambda>e. (fst e, canon (snd e))) es"
  have f: "map fst ?xs = map fst es" by (simp add: comp_def)
  have dx: "distinct (map fst ?xs)" using assms(1) by (simp only: f)
  then have "distinct ?xs" "inj_on fst (set ?xs)" by (simp_all only: distinct_map)
  then have "distinct ys" "inj_on fst (set ys)" by (simp_all add: ys_def)
  then have dy: "distinct (map fst ys)" by (simp only: distinct_map simp_thms)
  have sy: "sorted (map fst ys)" by (simp add: ys_def)
  have "set (map fst ys) = set (map fst ?xs)" by (simp only: ys_def set_map set_sort)
  then have "set (map fst ys) = set (sort (map fst es))" by (simp only: f set_sort)
  then have "map fst ys = sort (map fst es)"
    using sy dy assms(1) by (intro sorted_distinct_set_unique) simp_all
  then show "sort (map fst ys) = sort (map fst es)"
    by (metis sorted_sort sort_key_id_if_sorted list.map_ident)
  have "map_of ys = map_of ?xs"
    using dy dx by (simp add: map_of_inject_set ys_def)
  then show "map_of ys k = map_option canon (map_of es k)"
    by (simp add: map_of_canon)
qed

lemma isdir_canon: "isdir (map_option canon x) = isdir x"
  by (cases x; cases "the x") (simp_all add: isdir_def)

lemma isfile_canon: "isfile (map_option canon x) = isfile x"
  by (cases x; cases "the x") (simp_all add: isfile_def)

lemma scan_canon:
  "distinct_names d \<Longrightarrow> scan_directory ul (Some (canon d)) path = scan_directory ul (Some d) path"
proof (induction d arbitrary: path)
  case (Dir es)
  let ?ys = "sort_key fst (map (\<lambda>e. (fst e, canon (snd e))) es)"
  have dist: "distinct (map fst es)" using Dir.prems by simp
  note ce = canon_entries [OF dist]
  have sub: "scan_directory ul (map_option canon (map_of es item)) q = scan_directory ul (map_of es item) q"
    for item q
  proof (cases "map_of es item")
    case None
    then show ?thesis by simp
  next
    case (Some d)
    then have m: "(item, d) \<in> set es" by (rule map_of_SomeD)
    then have "distinct_names d" using Dir.prems by (auto simp: list_all_iff)
    from Dir.IH [OF m _ this] Some show ?thesis by simp
  qed
  have c: "child_of ul ?ys path = child_of ul es path"
    by (rule ext) (simp add: child_of_def ce(2) isdir_canon isfile_canon tree_of_def sub)
  have l: "item_lines ul ?ys path = item_lines ul es path"
    by (rule ext) (simp add: item_lines_def ce(2) isdir_canon lines_of_def sub)
  show ?case
    by (simp add: scan_directory_Dir c l ce(1))
qed simp_all

text \<open>
  C10. The result of a scan, the tree and the lines printed, does not depend on the
  order in which directories enumerate their entries: two file systems with distinct
  names in every directory that agree once every listing, at every depth, is put in
  sorted order are scanned to the same result.
\<close>

theorem enumeration_order_irrelevant:
  "distinct_names d \<Longrightarrow> distinct_names d' \<Longrightarrow> canon d = canon d' \<Longrightarrow>
   scan_directory ul (Some d) path = scan_directory ul (Some d') path"
  using scan_canon [where ul = ul and d = d and path = path]
    scan_canon [where ul = ul and d = d' and path = path] by simp

theorem enumeration_order_irrelevant_witness:
  "distinct_names example_fs \<and> distinct_names shuffled_fs \<and>
   canon example_fs = canon shuffled_fs \<and> example_fs \<noteq> shuffled_fs \<and>
   scan_directory ascii_lower (Some example_fs) ''img'' = scan_directory ascii_lower (Some shuffled_fs) ''img''"
proof -
  have a: "distinct_names example_fs" by code_simp
  have b: "distinct_names shuffled_fs" by code_simp
  have c: "canon example_fs = canon shuffled_fs" by code_simp
  have d: "example_fs \<noteq> shuffled_fs" by (simp add: example_fs_def shuffled_fs_def)
  from enumeration_order_irrelevant [OF a b c, where ul = ascii_lower and path = "''img''"] a b c d show ?thesis by blast
qed

end
